theory Spec2Isabelle
  imports Main "HOL-Library.Word" "HOL-Library.Signed_Division" "HOL-Library.Sublist"
begin

section \<open>Bytes, strings and big-endian numbers\<close>

text \<open>
  A Go \<^verbatim>\<open>string\<close> and a Go \<^verbatim>\<open>[]byte\<close> are both sequences of 8-bit bytes; HOL's
  \<^typ>\<open>char\<close> is exactly one such byte, so both are \<^typ>\<open>char list\<close> here.
\<close>

type_synonym byte = char

text \<open>
  \<^verbatim>\<open>binary.Write(buf, binary.BigEndian, v)\<close> and \<^verbatim>\<open>binary.Read\<close> for a fixed-width
  value of \<open>k\<close> bytes: the most significant byte comes first. \<open>PutUint k n\<close> are the
  \<open>k\<close> low bytes of \<open>n\<close>, \<open>Uint bs\<close> reads them back.
\<close>

fun PutUint :: "nat \<Rightarrow> nat \<Rightarrow> byte list" where
  "PutUint 0 n = []"
| "PutUint (Suc k) n = PutUint k (n div 256) @ [char_of (n mod 256)]"

definition Uint :: "byte list \<Rightarrow> nat" where
  "Uint bs = foldl (\<lambda>acc c. acc * 256 + of_char c) 0 bs"

text \<open>
  An \<^verbatim>\<open>int32\<close> or \<^verbatim>\<open>uint64\<close> is its bit pattern; a \<^verbatim>\<open>float32\<close> or \<^verbatim>\<open>float64\<close> is carried
  as its IEEE-754 bit pattern, which is all that \<^verbatim>\<open>binary.Write\<close> and \<^verbatim>\<open>binary.Read\<close>
  look at.
\<close>

definition put32 :: "32 word \<Rightarrow> byte list" where
  "put32 w = PutUint 4 (unat w)"

definition put64 :: "64 word \<Rightarrow> byte list" where
  "put64 w = PutUint 8 (unat w)"

definition get32 :: "byte list \<Rightarrow> 32 word" where
  "get32 bs = word_of_nat (Uint bs)"

definition get64 :: "byte list \<Rightarrow> 64 word" where
  "get64 bs = word_of_nat (Uint bs)"

section \<open>Padding\<close>

text \<open>
  \<^verbatim>\<open>func padBytesNeeded(elementLen int) int { return ((4 - (elementLen % 4)) % 4) }\<close>
  Go's \<^verbatim>\<open>%\<close> truncates towards zero: it is \<open>smod\<close>, not HOL's \<open>mod\<close>.
\<close>

definition padBytesNeeded :: "int \<Rightarrow> int" where
  "padBytesNeeded elementLen = (4 - (elementLen smod 4)) smod 4"

section \<open>Messages\<close>

text \<open>
  \<^verbatim>\<open>Arguments []interface{}\<close>: the dynamic types the type switches of the package know,
  and \<open>GoOther\<close> for a value of any other type (the \<^verbatim>\<open>default\<close> branches).
  Modelled from the spec: the \<^verbatim>\<open>Timetag\<close> type is declared in a file that is not among
  the sources; the spec gives it as a raw 64-bit value, written as 8 big-endian bytes.
\<close>

datatype arg =
    GoBool bool
  | GoNil
  | GoInt32 "32 word"
  | GoInt64 "64 word"
  | GoFloat32 "32 word"
  | GoFloat64 "64 word"
  | GoString string
  | GoBytes "byte list"
  | GoTimetag "64 word"
  | GoOther

record message =
  Address :: string
  Arguments :: "arg list"

datatype error =
    EOF
  | ErrUnexpectedEOF
  | ErrBufferFull
  | ERROR_INVALID_PACKET
  | ErrInvalidBundleTag string
  | ErrUnsupportedTypeTagString string
  | ErrUnsupportedTypeTag
  | ErrInvalidBlobLength int
  | ErrUnsupportedType

definition NewMessage :: "string \<Rightarrow> arg list \<Rightarrow> message" where
  "NewMessage addr args = \<lparr>Address = addr, Arguments = args\<rparr>"

definition Append :: "message \<Rightarrow> arg list \<Rightarrow> message" where
  "Append msg args = msg\<lparr>Arguments := Arguments msg @ args\<rparr>"

text \<open>\<^verbatim>\<open>getTypeTag\<close>: the type switch, with \<^verbatim>\<open>'\xff'\<close> for any other type.\<close>

fun getTypeTag :: "arg \<Rightarrow> byte" where
  "getTypeTag (GoBool t) = (if t then CHR ''T'' else CHR ''F'')"
| "getTypeTag GoNil = CHR ''N''"
| "getTypeTag (GoInt32 _) = CHR ''i''"
| "getTypeTag (GoFloat32 _) = CHR ''f''"
| "getTypeTag (GoString _) = CHR ''s''"
| "getTypeTag (GoBytes _) = CHR ''b''"
| "getTypeTag (GoInt64 _) = CHR ''h''"
| "getTypeTag (GoFloat64 _) = CHR ''d''"
| "getTypeTag (GoTimetag _) = CHR ''t''"
| "getTypeTag GoOther = CHR 0xFF"

text \<open>
  \<^verbatim>\<open>Message.typeTags\<close>: \<^verbatim>\<open>","\<close> at once for no arguments, else a builder that gets
  \<^verbatim>\<open>','\<close> and then one \<^verbatim>\<open>getTypeTag\<close> byte per argument, in order.
\<close>

definition typeTags :: "message \<Rightarrow> string" where
  "typeTags msg =
     (if length (Arguments msg) = 0 then '',''
      else foldl (\<lambda>tags m. tags @ [getTypeTag m]) [CHR '',''] (Arguments msg))"

section \<open>Writing\<close>

text \<open>\<^verbatim>\<open>strings.Index(str, "\x00")\<close>: the index of the first such byte, or \<open>-1\<close>.\<close>

definition IndexByte :: "string \<Rightarrow> byte \<Rightarrow> int" where
  "IndexByte s c = (if c \<in> set s then int (length (takeWhile (\<lambda>x. x \<noteq> c) s)) else - 1)"

text \<open>
  \<^verbatim>\<open>writePaddedString(str, buf)\<close>. A \<^verbatim>\<open>bytes.Buffer\<close> never returns a write error, so
  the error result is always \<^verbatim>\<open>nil\<close> and the model returns the count and the buffer.
  The inner \<^verbatim>\<open>n, err := buf.Write(padBytes)\<close> declares a new \<^verbatim>\<open>n\<close>; the outer one keeps
  the length of the string and its terminator.
\<close>

definition writePaddedString :: "string \<Rightarrow> byte list \<Rightarrow> int \<times> byte list" where
  "writePaddedString str buf =
     (let nullIndex = IndexByte str (CHR 0x00);
          str = (if nullIndex > 0 then take (nat nullIndex) str else str);
          n = int (length str) + 1;
          numPadBytes = padBytesNeeded n
      in (n + numPadBytes, buf @ str @ [CHR 0x00] @ replicate (nat numPadBytes) (CHR 0x00)))"

text \<open>\<^verbatim>\<open>writeBlob(data, buf)\<close>: \<^verbatim>\<open>int32(lenData)\<close> keeps the low 32 bits of the length.\<close>

definition writeBlob :: "byte list \<Rightarrow> byte list \<Rightarrow> int \<times> byte list" where
  "writeBlob data buf =
     (let lenData = int (length data);
          numPadBytes = padBytesNeeded lenData
      in (4 + lenData + numPadBytes,
          buf @ put32 (word_of_int lenData) @ data @ replicate (nat numPadBytes) (CHR 0x00)))"

text \<open>
  The loop of \<^verbatim>\<open>Message.MarshalBinary\<close> over \<^verbatim>\<open>msg.Arguments\<close>, at index \<open>i\<close>: it sets
  \<^verbatim>\<open>typetags[i+1]\<close> and appends to \<^verbatim>\<open>payload\<close>; a value of an unknown type ends the call
  with an error.
\<close>

fun marshalArguments :: "arg list \<Rightarrow> nat \<Rightarrow> byte list \<Rightarrow> byte list \<Rightarrow> error + (byte list \<times> byte list)" where
  "marshalArguments [] i typetags payload = Inr (typetags, payload)"
| "marshalArguments (GoBool t # args) i typetags payload =
     (if t then marshalArguments args (i + 1) (typetags[i + 1 := CHR ''T'']) payload
      else marshalArguments args (i + 1) (typetags[i + 1 := CHR ''F'']) payload)"
| "marshalArguments (GoNil # args) i typetags payload =
     marshalArguments args (i + 1) (typetags[i + 1 := CHR ''N'']) payload"
| "marshalArguments (GoInt32 t # args) i typetags payload =
     marshalArguments args (i + 1) (typetags[i + 1 := CHR ''i'']) (payload @ put32 t)"
| "marshalArguments (GoFloat32 t # args) i typetags payload =
     marshalArguments args (i + 1) (typetags[i + 1 := CHR ''f'']) (payload @ put32 t)"
| "marshalArguments (GoString t # args) i typetags payload =
     marshalArguments args (i + 1) (typetags[i + 1 := CHR ''s'']) (snd (writePaddedString t payload))"
| "marshalArguments (GoBytes t # args) i typetags payload =
     marshalArguments args (i + 1) (typetags[i + 1 := CHR ''b'']) (snd (writeBlob t payload))"
| "marshalArguments (GoInt64 t # args) i typetags payload =
     marshalArguments args (i + 1) (typetags[i + 1 := CHR ''h'']) (payload @ put64 t)"
| "marshalArguments (GoFloat64 t # args) i typetags payload =
     marshalArguments args (i + 1) (typetags[i + 1 := CHR ''d'']) (payload @ put64 t)"
| "marshalArguments (GoTimetag t # args) i typetags payload =
     marshalArguments args (i + 1) (typetags[i + 1 := CHR ''t'']) (payload @ put64 t)"
| "marshalArguments (GoOther # args) i typetags payload = Inl ErrUnsupportedType"

text \<open>
  \<^verbatim>\<open>Message.MarshalBinary\<close>: the padded address, the padded type tag string (an array of
  \<^verbatim>\<open>lenArgs+1\<close> bytes whose first is \<^verbatim>\<open>','\<close>), then the payload.
\<close>

definition MarshalBinary :: "message \<Rightarrow> error + byte list" where
  "MarshalBinary msg =
     (let data = snd (writePaddedString (Address msg) []);
          lenArgs = length (Arguments msg);
          typetags = (replicate (lenArgs + 1) (CHR 0x00))[0 := CHR '','']
      in case marshalArguments (Arguments msg) 0 typetags [] of
           Inl err \<Rightarrow> Inl err
         | Inr (typetags, payload) \<Rightarrow>
             Inr (snd (writePaddedString typetags data) @ payload))"

section \<open>The buffered reader\<close>

text \<open>
  The decoder reads from a \<^verbatim>\<open>*bufio.Reader\<close> of Go's standard library. Its state here
  is the buffer's length \<^verbatim>\<open>len(b.buf)\<close>, the unread bytes of the buffer
  \<^verbatim>\<open>b.buf[b.r:b.w]\<close>, and the bytes the underlying reader has not handed over yet. The
  underlying reader is an in-memory byte source (\<^verbatim>\<open>bytes.Buffer\<close>): a \<^verbatim>\<open>Read\<close> of it
  gives as many bytes as fit and are left, and \<^verbatim>\<open>io.EOF\<close> when none is left. With such a
  source a read never returns bytes together with an error, so the pending error
  \<^verbatim>\<open>b.err\<close> is always taken by the operation that sets it and is local to each loop.
\<close>

record reader =
  size :: nat
  buffered :: "byte list"
  source :: "byte list"

text \<open>\<^verbatim>\<open>NewReaderSize\<close> allocates \<^verbatim>\<open>max(size, minReadBufferSize)\<close> bytes, \<^verbatim>\<open>NewReader\<close> 4096.\<close>

definition bufLen :: "reader \<Rightarrow> nat" where
  "bufLen b = max (size b) 16"

definition NewReaderSize :: "byte list \<Rightarrow> nat \<Rightarrow> reader" where
  "NewReaderSize rd sz = \<lparr>size = sz, buffered = [], source = rd\<rparr>"

definition NewReader :: "byte list \<Rightarrow> reader" where
  "NewReader rd = NewReaderSize rd 4096"

text \<open>\<^verbatim>\<open>reader.Buffered()\<close>\<close>

definition Buffered :: "reader \<Rightarrow> nat" where
  "Buffered b = length (buffered b)"

text \<open>All bytes that are still to be read, buffered or not.\<close>

definition remaining :: "reader \<Rightarrow> byte list" where
  "remaining b = buffered b @ source b"

text \<open>
  \<^verbatim>\<open>fill\<close>: slides the unread bytes to the front and reads once into the free part of
  the buffer; the error it leaves in \<^verbatim>\<open>b.err\<close> is the second component.
\<close>

definition fill :: "reader \<Rightarrow> reader \<times> error option" where
  "fill b =
     (let n = min (bufLen b - length (buffered b)) (length (source b))
      in (b\<lparr>buffered := buffered b @ take n (source b), source := drop n (source b)\<rparr>,
          if source b = [] then Some EOF else None))"

text \<open>\<^verbatim>\<open>Peek(n)\<close>: fills while fewer than \<open>n\<close> bytes are buffered, the buffer is not full
  and no error is pending.\<close>

function PeekLoop :: "nat \<Rightarrow> reader \<Rightarrow> error option \<Rightarrow> reader \<times> error option" where
  "PeekLoop n b err =
     (if length (buffered b) < n \<and> length (buffered b) < bufLen b \<and> err = None
      then (case fill b of (b', err') \<Rightarrow> PeekLoop n b' err')
      else (b, err))"
  by pat_completeness auto
termination
  by (relation "measure (\<lambda>(n, b, err). length (source b) + (if err = None then 1 else 0))")
     (auto simp: fill_def bufLen_def Let_def split: if_splits)

definition Peek :: "nat \<Rightarrow> reader \<Rightarrow> (byte list \<times> error option) \<times> reader" where
  "Peek n b0 =
     (case PeekLoop n b0 None of (b, err) \<Rightarrow>
        if n > bufLen b then ((buffered b, Some ErrBufferFull), b)
        else if length (buffered b) < n
        then ((buffered b, Some (case err of Some e \<Rightarrow> e | None \<Rightarrow> ErrBufferFull)), b)
        else ((take n (buffered b), None), b))"

text \<open>
  \<^verbatim>\<open>Read(p)\<close> with \<open>n = len(p)\<close>: from the buffer when it holds bytes, and then no more
  than it holds; else one read of the source, straight into \<open>p\<close> when \<open>p\<close> is at least
  as long as the buffer.
\<close>

definition Read :: "nat \<Rightarrow> reader \<Rightarrow> (byte list \<times> error option) \<times> reader" where
  "Read n b =
     (if n = 0 then (([], None), b)
      else if buffered b = [] then
        (if source b = [] then (([], Some EOF), b)
         else if n \<ge> bufLen b
         then ((take n (source b), None), b\<lparr>source := drop n (source b)\<rparr>)
         else (let k = min (bufLen b) (length (source b)); buf = take k (source b)
               in ((take n buf, None), b\<lparr>buffered := drop n buf, source := drop k (source b)\<rparr>)))
      else ((take n (buffered b), None), b\<lparr>buffered := drop n (buffered b)\<rparr>))"

lemma Read_progress:
  assumes "Read n b = ((bs, None), b')" and "0 < n"
  shows "bs \<noteq> []"
  using assms by (auto simp: Read_def bufLen_def Let_def min_def max_def split: if_splits)

text \<open>
  \<^verbatim>\<open>io.ReadAtLeast(r, buf, min)\<close> with \<open>len(buf) = min\<close>, which is \<^verbatim>\<open>io.ReadFull\<close>: reads
  until \<open>min\<close> bytes are there or a read fails.
\<close>

function ReadAtLeast :: "nat \<Rightarrow> reader \<Rightarrow> byte list \<Rightarrow> error option \<Rightarrow> (byte list \<times> error option) \<times> reader" where
  "ReadAtLeast m b got err =
     (if length got < m \<and> err = None
      then (case Read (m - length got) b of ((bs, err'), b') \<Rightarrow> ReadAtLeast m b' (got @ bs) err')
      else ((got, if length got \<ge> m then None
                  else if length got > 0 \<and> err = Some EOF then Some ErrUnexpectedEOF
                  else err), b))"
  by pat_completeness auto
termination
proof (relation "measure (\<lambda>(m, b, got, err). (m - length got) + (if err = None then 1 else 0))", goal_cases)
  case 1
  show ?case by simp
next
  case (2 m b got err x1 b' bs err')
  then have r: "Read (m - length got) b = ((bs, err'), b')" and lt: "length got < m"
    by simp_all
  show ?case
  proof (cases err')
    case None
    with r lt have "bs \<noteq> []"
      using Read_progress [of "m - length got" b bs b'] by simp
    with lt None 2 show ?thesis
      by (cases bs) auto
  next
    case (Some e)
    with 2 show ?thesis by auto
  qed
qed

text \<open>\<^verbatim>\<open>binary.Read(reader, binary.BigEndian, &v)\<close> for a value of \<open>n\<close> bytes: the bytes
  that \<^verbatim>\<open>io.ReadFull\<close> got, or its error.\<close>

definition binaryRead :: "nat \<Rightarrow> reader \<Rightarrow> (error + byte list) \<times> reader" where
  "binaryRead n b =
     (case ReadAtLeast n b [] None of
        ((bs, None), b') \<Rightarrow> (Inr bs, b')
      | ((bs, Some e), b') \<Rightarrow> (Inl e, b'))"

text \<open>
  \<^verbatim>\<open>ReadString(delim)\<close>: \<^verbatim>\<open>collectFragments\<close> around \<^verbatim>\<open>ReadSlice\<close>. It searches the buffer;
  without the delimiter there it ends with a pending error, takes a full buffer as a
  fragment, or fills and searches again.
\<close>

function ReadStringLoop :: "byte \<Rightarrow> reader \<Rightarrow> byte list \<Rightarrow> error option \<Rightarrow> (byte list \<times> error option) \<times> reader" where
  "ReadStringLoop delim b acc err =
     (if delim \<in> set (buffered b) then
        (let line = takeWhile (\<lambda>x. x \<noteq> delim) (buffered b) @ [delim]
         in ((acc @ line, None), b\<lparr>buffered := drop (length line) (buffered b)\<rparr>))
      else if err \<noteq> None then ((acc @ buffered b, err), b\<lparr>buffered := []\<rparr>)
      else if length (buffered b) \<ge> bufLen b
      then ReadStringLoop delim (b\<lparr>buffered := []\<rparr>) (acc @ buffered b) None
      else (case fill b of (b', err') \<Rightarrow> ReadStringLoop delim b' acc err'))"
  by pat_completeness auto
termination
  by (relation "measures [\<lambda>(d, b, acc, err). length (buffered b) + length (source b),
                          \<lambda>(d, b, acc, err). length (source b) + (if err = None then 1 else 0)]")
     (auto simp: fill_def bufLen_def Let_def split: if_splits)

definition ReadString :: "byte \<Rightarrow> reader \<Rightarrow> (byte list \<times> error option) \<times> reader" where
  "ReadString delim b = ReadStringLoop delim b [] None"

section \<open>Reading\<close>

text \<open>\<^verbatim>\<open>readPaddedString\<close>: the string up to its terminator, then one \<^verbatim>\<open>Read\<close> for the
  padding, whose count is not looked at.\<close>

definition readPaddedString :: "reader \<Rightarrow> (error + (string \<times> int)) \<times> reader" where
  "readPaddedString reader =
     (case ReadString (CHR 0x00) reader of
        ((str, Some err), reader1) \<Rightarrow> (Inl err, reader1)
      | ((str, None), reader1) \<Rightarrow>
          (let lenStr = int (length str);
               n = lenStr;
               padLen = padBytesNeeded lenStr
           in if padLen > 0 then
                (case Read (nat padLen) reader1 of
                   ((padBytes, Some err), reader2) \<Rightarrow> (Inl err, reader2)
                 | ((padBytes, None), reader2) \<Rightarrow>
                     (Inr (take (nat (lenStr - 1)) str, n + padLen), reader2))
              else (Inr (take (nat (lenStr - 1)) str, n), reader1)))"

text \<open>
  \<^verbatim>\<open>readBlob\<close>: the length as an \<^verbatim>\<open>int32\<close>, checked against \<^verbatim>\<open>int32(reader.Buffered())\<close>;
  \<^verbatim>\<open>make([]byte, blobLen)\<close> is zeroed, and one \<^verbatim>\<open>Read\<close> writes what it gets over its
  start.
\<close>

definition readBlob :: "reader \<Rightarrow> (error + (byte list \<times> int)) \<times> reader" where
  "readBlob reader =
     (case binaryRead 4 reader of
        (Inl err, reader1) \<Rightarrow> (Inl err, reader1)
      | (Inr bs, reader1) \<Rightarrow>
          (let blobLen = get32 bs;
               n = 4 + sint blobLen
           in if sint blobLen < 1 \<or> sint blobLen > sint (word_of_nat (Buffered reader1) :: 32 word)
              then (Inl (ErrInvalidBlobLength (sint blobLen)), reader1)
              else (case Read (nat (sint blobLen)) reader1 of
                      ((got, Some err), reader2) \<Rightarrow> (Inl err, reader2)
                    | ((got, None), reader2) \<Rightarrow>
                        (let blob = got @ replicate (nat (sint blobLen) - length got) (CHR 0x00);
                             numPadBytes = padBytesNeeded (sint blobLen)
                         in if numPadBytes > 0 then
                              (case Read (nat numPadBytes) reader2 of
                                 ((dummy, Some err), reader3) \<Rightarrow> (Inl err, reader3)
                               | ((dummy, None), reader3) \<Rightarrow> (Inr (blob, n + numPadBytes), reader3))
                            else (Inr (blob, n), reader2)))))"

text \<open>
  One turn of the loop of \<^verbatim>\<open>readArguments\<close> over the type tags. The state is the
  message, the reader and the counter \<^verbatim>\<open>*start\<close>. A turn either goes on to the next tag
  (\<open>Continue\<close>) or leaves the function (\<open>Return\<close>) with the error it returns, \<open>None\<close>
  for \<^verbatim>\<open>nil\<close>. The loop ranges over runes; every tag it knows is one ASCII byte and any
  other rune takes the \<^verbatim>\<open>default\<close> branch, as any other byte does here.
\<close>

type_synonym decoding = "message \<times> reader \<times> int"

datatype flow = Continue decoding | Return "error option" decoding

fun readArgument :: "byte \<Rightarrow> decoding \<Rightarrow> flow" where
  "readArgument c (msg, reader, start) =
     (if c = CHR ''i'' then
        (case binaryRead 4 reader of
           (Inl err, reader1) \<Rightarrow> Return (Some err) (msg, reader1, start)
         | (Inr bs, reader1) \<Rightarrow> Continue (Append msg [GoInt32 (get32 bs)], reader1, start + 4))
      else if c = CHR ''h'' then
        (case binaryRead 8 reader of
           (Inl err, reader1) \<Rightarrow> Return (Some err) (msg, reader1, start)
         | (Inr bs, reader1) \<Rightarrow> Continue (Append msg [GoInt64 (get64 bs)], reader1, start + 8))
      else if c = CHR ''f'' then
        (case binaryRead 4 reader of
           (Inl err, reader1) \<Rightarrow> Return (Some err) (msg, reader1, start)
         | (Inr bs, reader1) \<Rightarrow> Continue (Append msg [GoFloat32 (get32 bs)], reader1, start + 4))
      else if c = CHR ''d'' then
        (case binaryRead 8 reader of
           (Inl err, reader1) \<Rightarrow> Return (Some err) (msg, reader1, start)
         | (Inr bs, reader1) \<Rightarrow> Continue (Append msg [GoFloat64 (get64 bs)], reader1, start + 8))
      else if c = CHR ''s'' then
        (case readPaddedString reader of
           (Inl err, reader1) \<Rightarrow> Return (Some err) (msg, reader1, start)
         | (Inr (s, _), reader1) \<Rightarrow>
             (let lenStr = int (length s)
              in Continue (Append msg [GoString s], reader1, start + (lenStr + padBytesNeeded lenStr))))
      else if c = CHR ''b'' then
        (case readBlob reader of
           (Inl err, reader1) \<Rightarrow> Return (Some err) (msg, reader1, start)
         | (Inr (buf, n), reader1) \<Rightarrow> Continue (Append msg [GoBytes buf], reader1, start + n))
      else if c = CHR ''t'' then
        (case binaryRead 8 reader of
           (Inl err, reader1) \<Rightarrow> Return None (msg, reader1, start)
         | (Inr bs, reader1) \<Rightarrow> Continue (Append msg [GoTimetag (get64 bs)], reader1, start + 8))
      else if c = CHR ''N'' then Continue (Append msg [GoNil], reader, start)
      else if c = CHR ''T'' then Continue (Append msg [GoBool True], reader, start)
      else if c = CHR ''F'' then Continue (Append msg [GoBool False], reader, start)
      else Return (Some ErrUnsupportedTypeTag) (msg, reader, start))"

fun readArgumentsLoop :: "string \<Rightarrow> decoding \<Rightarrow> flow" where
  "readArgumentsLoop [] d = Continue d"
| "readArgumentsLoop (c # typetags) d =
     (case readArgument c d of
        Continue d' \<Rightarrow> readArgumentsLoop typetags d'
      | Return err d' \<Rightarrow> Return err d')"

text \<open>\<^verbatim>\<open>readArguments(msg, reader, start)\<close>: the error it returns, and the message, the
  reader and the counter as it leaves them.\<close>

definition readArguments :: "message \<Rightarrow> reader \<Rightarrow> int \<Rightarrow> error option \<times> decoding" where
  "readArguments msg reader start =
     (case readPaddedString reader of
        (Inl err, reader1) \<Rightarrow> (Some err, (msg, reader1, start))
      | (Inr (typetags, n), reader1) \<Rightarrow>
          (if length typetags = 0 then (None, (msg, reader1, start + n))
           else if hd typetags \<noteq> CHR '','' then
             (Some (ErrUnsupportedTypeTagString typetags), (msg, reader1, start + n))
           else (case readArgumentsLoop (tl typetags) (msg, reader1, start + n) of
                   Continue d \<Rightarrow> (None, d)
                 | Return err d \<Rightarrow> (err, d))))"

text \<open>\<^verbatim>\<open>readMessage(reader, start)\<close>: the message or the error, the reader and the counter.\<close>

definition readMessage :: "reader \<Rightarrow> int \<Rightarrow> (error + message) \<times> reader \<times> int" where
  "readMessage reader start =
     (case readPaddedString reader of
        (Inl err, reader1) \<Rightarrow> (Inl err, reader1, start)
      | (Inr (addr, n), reader1) \<Rightarrow>
          (case readArguments (NewMessage addr []) reader1 (start + n) of
             (Some err, (msg, reader2, start2)) \<Rightarrow> (Inl err, reader2, start2)
           | (None, (msg, reader2, start2)) \<Rightarrow> (Inr msg, reader2, start2)))"

text \<open>
  Modelled from the spec: the \<^verbatim>\<open>Bundle\<close> type, \<^verbatim>\<open>NewBundle\<close>, \<^verbatim>\<open>Bundle.Append\<close> and
  \<^verbatim>\<open>timetagToTime\<close> are in files that are not among the sources. The spec gives a bundle
  as a time tag and an ordered sequence of packets, each a message or a bundle; the
  time tag is kept as the raw 64-bit value read. \<^verbatim>\<open>readPacket\<close> only ever hands a
  message or a bundle to \<^verbatim>\<open>Append\<close>, which then appends it and returns no error.
\<close>

datatype packet = PacketMessage message | PacketBundle "64 word" "packet list"

definition bundleTagString :: string where
  "bundleTagString = ''#bundle''"

text \<open>
  \<^verbatim>\<open>readPacket\<close>, \<^verbatim>\<open>readBundle\<close> and the loop \<^verbatim>\<open>for *start < end\<close> of \<^verbatim>\<open>readBundle\<close>. They
  call each other, so they carry fuel: one unit for each turn of a loop, \<open>None\<close> when
  a turn is due and none is left. The length read at the start of a turn is not used,
  and the nested call gets the same \<open>end\<close>. The counters \<^verbatim>\<open>*start\<close> and \<^verbatim>\<open>end\<close> are of
  Go's type \<^verbatim>\<open>int\<close> and are integers without bound here: the wrap-around of a counter
  of 64 bits, which no input that fits a memory can bring about from a counter at 0,
  is not modelled.
\<close>

fun readPacket :: "nat \<Rightarrow> reader \<Rightarrow> int \<Rightarrow> int \<Rightarrow> ((error + packet) \<times> reader \<times> int) option"
  and readBundle :: "nat \<Rightarrow> reader \<Rightarrow> int \<Rightarrow> int \<Rightarrow> ((error + packet) \<times> reader \<times> int) option"
  and readBundleLoop :: "nat \<Rightarrow> reader \<Rightarrow> int \<Rightarrow> int \<Rightarrow> 64 word \<Rightarrow> packet list \<Rightarrow> ((error + packet) \<times> reader \<times> int) option"
where
  "readPacket fuel reader start end =
     (case Peek 1 reader of
        ((buf, Some err), reader1) \<Rightarrow> Some (Inl err, reader1, start)
      | ((buf, None), reader1) \<Rightarrow>
          (if hd buf = CHR ''/'' then
             (case readMessage reader1 start of
                (Inl err, reader2, start2) \<Rightarrow> Some (Inl err, reader2, start2)
              | (Inr msg, reader2, start2) \<Rightarrow> Some (Inr (PacketMessage msg), reader2, start2))
           else if hd buf = CHR ''#'' then readBundle fuel reader1 start end
           else Some (Inl ERROR_INVALID_PACKET, reader1, start)))"
| "readBundle fuel reader start end =
     (case readPaddedString reader of
        (Inl err, reader1) \<Rightarrow> Some (Inl err, reader1, start)
      | (Inr (startTag, n), reader1) \<Rightarrow>
          (if startTag \<noteq> bundleTagString
           then Some (Inl (ErrInvalidBundleTag startTag), reader1, start + n)
           else (case binaryRead 8 reader1 of
                   (Inl err, reader2) \<Rightarrow> Some (Inl err, reader2, start + n)
                 | (Inr bs, reader2) \<Rightarrow>
                     readBundleLoop fuel reader2 (start + n + 8) end (get64 bs) [])))"
| "readBundleLoop 0 reader start end timeTag elems =
     (if start < end then None
      else Some (Inr (PacketBundle timeTag elems), reader, start))"
| "readBundleLoop (Suc fuel) reader start end timeTag elems =
     (if start < end then
        (case binaryRead 4 reader of
           (Inl err, reader1) \<Rightarrow> Some (Inl err, reader1, start)
         | (Inr bs, reader1) \<Rightarrow>
             (case readPacket fuel reader1 (start + 4) end of
                None \<Rightarrow> None
              | Some (Inl err, reader2, start2) \<Rightarrow> Some (Inl err, reader2, start2)
              | Some (Inr p, reader2, start2) \<Rightarrow>
                  readBundleLoop fuel reader2 start2 end timeTag (elems @ [p])))
      else Some (Inr (PacketBundle timeTag elems), reader, start))"

text \<open>
  Two readers are the same beyond their next \<open>k\<close> bytes when they have buffers of the
  same length holding equally many bytes, equally many bytes in their sources, and
  the same bytes to come after the next \<open>k\<close>.
\<close>

definition sameBeyond :: "nat \<Rightarrow> reader \<Rightarrow> reader \<Rightarrow> bool" where
  "sameBeyond k r r' =
     (size r = size r' \<and> length (buffered r) = length (buffered r')
      \<and> length (source r) = length (source r')
      \<and> drop k (remaining r) = drop k (remaining r'))"

fun isMessage :: "packet \<Rightarrow> bool" where
  "isMessage (PacketMessage m) = True"
| "isMessage (PacketBundle t ps) = False"

section \<open>Address patterns\<close>












definition isASCII :: "char \<Rightarrow> bool" where
  "isASCII c = (of_char c < (128::nat))"

definition isalnum :: "char \<Rightarrow> bool" where
  "isalnum c = (let n = of_char c :: nat
                in (48 \<le> n \<and> n \<le> 57) \<or> (65 \<le> n \<and> n \<le> 90) \<or> (97 \<le> n \<and> n \<le> 122))"









section \<open>Wire images\<close>

text \<open>A string with its terminator and padding, as it stands on the wire.\<close>

definition padded :: "string \<Rightarrow> byte list" where
  "padded s = s @ CHR 0x00 # replicate (nat (padBytesNeeded (int (length s) + 1))) (CHR 0x00)"

text \<open>The bytes of a blob on the wire.\<close>

definition blob :: "byte list \<Rightarrow> byte list" where
  "blob data = put32 (word_of_int (int (length data))) @ data
     @ replicate (nat (padBytesNeeded (int (length data)))) (CHR 0x00)"

text \<open>The payload of an argument on the wire, and the arguments that come back as they
  were written: every supported type, a string without a null byte, a blob with at
  least one byte.\<close>

fun payload :: "arg \<Rightarrow> byte list" where
  "payload (GoInt32 t) = put32 t"
| "payload (GoFloat32 t) = put32 t"
| "payload (GoInt64 t) = put64 t"
| "payload (GoFloat64 t) = put64 t"
| "payload (GoTimetag t) = put64 t"
| "payload (GoString t) = padded t"
| "payload (GoBytes t) = blob t"
| "payload _ = []"

fun transportable :: "arg \<Rightarrow> bool" where
  "transportable (GoString t) = (CHR 0x00 \<notin> set t)"
| "transportable (GoBytes t) = (t \<noteq> [])"
| "transportable GoOther = False"
| "transportable _ = True"

text \<open>A result of the bundle decoder leaves no more to read than there was.\<close>

definition shrinks :: "((error + packet) \<times> reader \<times> int) option \<Rightarrow> reader \<Rightarrow> bool" where
  "shrinks res r = (case res of None \<Rightarrow> True | Some (x, r', s') \<Rightarrow> suffix (remaining r') (remaining r))"

declare readPacket.simps [simp del] readBundle.simps [simp del]

section \<open>Properties of the writers\<close>

lemma padBytesNeeded_nonneg:
  assumes "0 \<le> n"
  shows "padBytesNeeded n = (4 - n mod 4) mod 4"
proof -
  have a: "n smod 4 = n mod 4"
    using assms by (simp add: smod_int_alt_def sgn_if)
  have "0 \<le> 4 - n mod 4"
    using pos_mod_bound [of 4 n] by linarith
  then have "(4 - n mod 4) smod 4 = (4 - n mod 4) mod 4"
    by (simp add: smod_int_alt_def sgn_if)
  with a show ?thesis
    by (simp add: padBytesNeeded_def)
qed

text \<open>
  C6. For every \<open>n \<ge> 0\<close>, \<open>padBytesNeeded n = (4 - (n mod 4)) mod 4\<close>, the result lies
  in \<open>0..3\<close>, and \<open>n\<close> plus the result is a multiple of 4.
\<close>

theorem padBytesNeeded_spec:
  assumes "0 \<le> n"
  shows "padBytesNeeded n = (4 - (n mod 4)) mod 4
       \<and> 0 \<le> padBytesNeeded n \<and> padBytesNeeded n < 4
       \<and> (n + padBytesNeeded n) mod 4 = 0"
proof -
  have e: "padBytesNeeded n = (4 - n mod 4) mod 4"
    by (rule padBytesNeeded_nonneg [OF assms])
  have "(n + (4 - n mod 4) mod 4) mod 4 = 0"
    by presburger
  with e show ?thesis
    by simp
qed

theorem padBytesNeeded_spec_witness:
  "(0::int) \<le> 6 \<and> padBytesNeeded 6 = 2 \<and> (6 + padBytesNeeded 6) mod 4 = 0"
  using padBytesNeeded_spec [of 6] by simp

section \<open>Errors of the reader\<close>

lemma Read_error:
  assumes "Read n b = ((bs, Some e), b')"
  shows "e = EOF"
  using assms by (auto simp: Read_def Let_def split: if_splits)

lemma ReadAtLeast_error:
  assumes "ReadAtLeast m b got err = ((bs, Some e), b')"
    and "err = None \<or> err = Some EOF"
  shows "e = EOF \<or> e = ErrUnexpectedEOF"
  using assms
proof (induction m b got err rule: ReadAtLeast.induct)
  case (1 m b got err)
  show ?case
  proof (cases "length got < m \<and> err = None")
    case True
    obtain cs err' b1 where r: "Read (m - length got) b = ((cs, err'), b1)"
      by (metis prod.exhaust)
    have e': "err' = None \<or> err' = Some EOF"
      using Read_error [of "m - length got" b cs _ b1] r by (cases err') auto
    from True r "1.prems"(1) have "ReadAtLeast m b1 (got @ cs) err' = ((bs, Some e), b')"
      by (simp add: ReadAtLeast.simps [of m b got err])
    with "1.IH" [OF True r [symmetric] refl] show ?thesis
      using e' by blast
  next
    case False
    with "1.prems" show ?thesis
      by (auto simp: ReadAtLeast.simps [of m b got err] split: if_splits)
  qed
qed

lemma binaryRead_error:
  assumes "binaryRead n b = (Inl e, b')"
  shows "e = EOF \<or> e = ErrUnexpectedEOF"
proof -
  obtain bs err b1 where r: "ReadAtLeast n b [] None = ((bs, err), b1)"
    by (metis prod.exhaust)
  with assms have "err = Some e"
    by (cases err) (auto simp: binaryRead_def)
  with r show ?thesis
    using ReadAtLeast_error [of n b "[]" None bs e b1] by simp
qed

lemma ReadStringLoop_error:
  assumes "ReadStringLoop delim b acc err = ((s, Some e), b')"
    and "err = None \<or> err = Some EOF"
  shows "e = EOF"
  using assms
proof (induction delim b acc err rule: ReadStringLoop.induct)
  case (1 delim b acc err)
  show ?case
  proof (cases "delim \<in> set (buffered b)")
    case True
    with "1.prems" show ?thesis
      by (simp add: ReadStringLoop.simps [of delim b acc err] Let_def)
  next
    case nf: False
    show ?thesis
    proof (cases "err \<noteq> None")
      case True
      with nf "1.prems" show ?thesis
        by (auto simp: ReadStringLoop.simps [of delim b acc err])
    next
      case ne: False
      show ?thesis
      proof (cases "length (buffered b) \<ge> bufLen b")
        case True
        with nf ne "1.prems" "1.IH"(1) show ?thesis
          by (simp add: ReadStringLoop.simps [of delim b acc err])
      next
        case nofull: False
        obtain b1 err1 where f: "fill b = (b1, err1)"
          by (metis prod.exhaust)
        then have "err1 = None \<or> err1 = Some EOF"
          by (auto simp: fill_def Let_def split: if_splits)
        moreover from nf ne nofull f "1.prems"(1)
        have "ReadStringLoop delim b1 acc err1 = ((s, Some e), b')"
          by (simp add: ReadStringLoop.simps [of delim b acc err])
        ultimately show ?thesis
          using "1.IH"(2) [OF nf ne nofull f [symmetric]] ne by blast
      qed
    qed
  qed
qed

lemma readPaddedString_error:
  assumes "readPaddedString b = (Inl e, b')"
  shows "e = EOF"
proof -
  obtain s err b1 where r: "ReadString (CHR 0x00) b = ((s, err), b1)"
    by (metis prod.exhaust)
  show ?thesis
  proof (cases err)
    case (Some e1)
    with r assms have "e1 = e"
      by (simp add: readPaddedString_def)
    with Some r show ?thesis
      using ReadStringLoop_error [of "CHR 0x00" b "[]" None s e b1]
      by (simp add: ReadString_def)
  next
    case None
    with r assms show ?thesis
      by (auto simp: readPaddedString_def Let_def split: if_splits prod.splits option.splits
          dest: Read_error)
  qed
qed

lemma readBlob_error:
  assumes "readBlob b = (Inl e, b')"
  shows "e = EOF \<or> e = ErrUnexpectedEOF \<or> (\<exists>n. e = ErrInvalidBlobLength n)"
  using assms
  by (auto simp: readBlob_def Let_def split: if_splits prod.splits option.splits sum.splits
      dest: Read_error binaryRead_error)

lemma readArgument_error:
  assumes "readArgument c d = Return (Some e) d'"
  shows "e = EOF \<or> e = ErrUnexpectedEOF \<or> e = ErrUnsupportedTypeTag \<or> (\<exists>n. e = ErrInvalidBlobLength n)"
proof -
  obtain msg reader start where d: "d = (msg, reader, start)"
    by (cases d) auto
  show ?thesis
    using assms unfolding d
    by (auto simp: Let_def split: if_splits prod.splits sum.splits
        dest: binaryRead_error readPaddedString_error readBlob_error)
qed

lemma readArgumentsLoop_error:
  assumes "readArgumentsLoop cs d = Return (Some e) d'"
  shows "e = EOF \<or> e = ErrUnexpectedEOF \<or> e = ErrUnsupportedTypeTag \<or> (\<exists>n. e = ErrInvalidBlobLength n)"
  using assms
proof (induction cs arbitrary: d)
  case Nil
  then show ?case by simp
next
  case (Cons c cs)
  then show ?case
    by (auto split: flow.splits dest: readArgument_error)
qed

section \<open>Type tags\<close>

lemma foldl_tags:
  "foldl (\<lambda>tags m. tags @ [getTypeTag m]) acc args = acc @ map getTypeTag args"
  by (induction args arbitrary: acc) simp_all

text \<open>
  C8. The type tag string of a message is \<open>,\<close> followed by exactly one byte per
  argument, in order, each given by the fixed table of \<open>getTypeTag\<close>: \<open>T\<close> and \<open>F\<close> for
  the booleans, \<open>N\<close> for nil, \<open>i\<close>, \<open>h\<close>, \<open>f\<close>, \<open>d\<close>, \<open>s\<close>, \<open>b\<close>, \<open>t\<close> for the others;
  with no arguments it is exactly \<open>,\<close>.
\<close>

theorem typeTags_spec:
  "typeTags msg = CHR '','' # map getTypeTag (Arguments msg)
   \<and> typeTags (NewMessage addr []) = '',''
   \<and> getTypeTag (GoBool True) = CHR ''T'' \<and> getTypeTag (GoBool False) = CHR ''F''
   \<and> getTypeTag GoNil = CHR ''N'' \<and> getTypeTag (GoInt32 i) = CHR ''i''
   \<and> getTypeTag (GoInt64 h) = CHR ''h'' \<and> getTypeTag (GoFloat32 f) = CHR ''f''
   \<and> getTypeTag (GoFloat64 d) = CHR ''d'' \<and> getTypeTag (GoString s) = CHR ''s''
   \<and> getTypeTag (GoBytes b) = CHR ''b'' \<and> getTypeTag (GoTimetag t) = CHR ''t''"
  by (simp add: typeTags_def foldl_tags NewMessage_def)

lemma readArgumentsLoop_append:
  "readArgumentsLoop (pre @ cs) d =
     (case readArgumentsLoop pre d of
        Continue d' \<Rightarrow> readArgumentsLoop cs d'
      | Return err d' \<Rightarrow> Return err d')"
  by (induction pre arbitrary: d) (auto split: flow.splits)

lemma readArgument_unknown:
  assumes "c \<notin> set ''ihfdsbtNTF''"
  shows "readArgument c d = Return (Some ErrUnsupportedTypeTag) d"
  using assms by (cases d) simp

text \<open>
  C9, as amended. Let the address and the type tag string have been read. Decoding
  fails with the error for a malformed type tag string exactly when that string is not
  empty and does not start with \<open>,\<close>. An empty type tag string, or the bare \<open>,\<close>, gives
  a message with no arguments. A tag byte after the comma outside \<open>ihfdsbtNTF\<close> makes
  decoding fail with the error for an unknown type tag, provided the loop got past the
  tags before it; a read that fails for an earlier tag ends the decoding first.
\<close>

theorem readMessage_typetags:
  assumes "readPaddedString reader = (Inr (addr, n0), reader0)"
    and "readPaddedString reader0 = (Inr (typetags, n), reader1)"
  shows "((\<exists>t. fst (readMessage reader start) = Inl (ErrUnsupportedTypeTagString t))
            \<longleftrightarrow> (typetags \<noteq> [] \<and> hd typetags \<noteq> CHR '',''))
       \<and> (typetags = [] \<or> typetags = '','' \<longrightarrow>
            fst (readMessage reader start) = Inr \<lparr>Address = addr, Arguments = []\<rparr>)
       \<and> (\<forall>pre c post d.
            typetags = CHR '','' # pre @ c # post \<and> c \<notin> set ''ihfdsbtNTF''
            \<and> readArgumentsLoop pre (NewMessage addr [], reader1, start + n0 + n) = Continue d
            \<longrightarrow> fst (readMessage reader start) = Inl ErrUnsupportedTypeTag)"
proof (intro conjI allI impI)
  let ?d0 = "(NewMessage addr [], reader1, start + n0 + n)"
  have rm: "readMessage reader start =
      (case readArguments (NewMessage addr []) reader0 (start + n0) of
         (Some err, (msg, reader2, start2)) \<Rightarrow> (Inl err, reader2, start2)
       | (None, (msg, reader2, start2)) \<Rightarrow> (Inr msg, reader2, start2))"
    using assms(1) by (simp add: readMessage_def)
  have ra: "readArguments (NewMessage addr []) reader0 (start + n0) =
      (if length typetags = 0 then (None, (NewMessage addr [], reader1, start + n0 + n))
       else if hd typetags \<noteq> CHR '','' then
         (Some (ErrUnsupportedTypeTagString typetags), (NewMessage addr [], reader1, start + n0 + n))
       else (case readArgumentsLoop (tl typetags) ?d0 of
               Continue d \<Rightarrow> (None, d)
             | Return err d \<Rightarrow> (err, d)))"
    using assms(2) by (simp add: readArguments_def)
  show "(\<exists>t. fst (readMessage reader start) = Inl (ErrUnsupportedTypeTagString t))
          \<longleftrightarrow> (typetags \<noteq> [] \<and> hd typetags \<noteq> CHR '','')"
  proof
    assume "typetags \<noteq> [] \<and> hd typetags \<noteq> CHR '',''"
    then show "\<exists>t. fst (readMessage reader start) = Inl (ErrUnsupportedTypeTagString t)"
      by (simp add: rm ra)
  next
    assume "\<exists>t. fst (readMessage reader start) = Inl (ErrUnsupportedTypeTagString t)"
    then obtain t where t: "fst (readMessage reader start) = Inl (ErrUnsupportedTypeTagString t)"
      by blast
    show "typetags \<noteq> [] \<and> hd typetags \<noteq> CHR '',''"
    proof (rule ccontr)
      assume "\<not> (typetags \<noteq> [] \<and> hd typetags \<noteq> CHR '','')"
      then consider "typetags = []" | "typetags \<noteq> []" "hd typetags = CHR '',''"
        by blast
      then show False
      proof cases
        case 1
        with t show False by (simp add: rm ra)
      next
        case 2
        show False
        proof (cases "readArgumentsLoop (tl typetags) ?d0")
          case (Continue d)
          with 2 t show False
            by (simp add: rm ra split: prod.splits)
        next
          case (Return err d)
          with 2 t have "err = Some (ErrUnsupportedTypeTagString t)"
            by (cases err) (auto simp: rm ra split: prod.splits)
          with Return show False
            using readArgumentsLoop_error [of "tl typetags" ?d0 "ErrUnsupportedTypeTagString t" d]
            by simp
        qed
      qed
    qed
  qed
next
  assume "typetags = [] \<or> typetags = '',''"
  then show "fst (readMessage reader start) = Inr \<lparr>Address = addr, Arguments = []\<rparr>"
    using assms by (auto simp: readMessage_def readArguments_def NewMessage_def)
next
  fix pre c post d
  assume h: "typetags = CHR '','' # pre @ c # post \<and> c \<notin> set ''ihfdsbtNTF''
      \<and> readArgumentsLoop pre (NewMessage addr [], reader1, start + n0 + n) = Continue d"
  then have "c \<notin> set ''ihfdsbtNTF''"
    by blast
  then have u: "readArgument c d = Return (Some ErrUnsupportedTypeTag) d"
    by (rule readArgument_unknown)
  from h have "readArgumentsLoop (pre @ c # post) (NewMessage addr [], reader1, start + n0 + n)
      = Return (Some ErrUnsupportedTypeTag) d"
    by (simp add: readArgumentsLoop_append u)
  with h show "fst (readMessage reader start) = Inl ErrUnsupportedTypeTag"
    using assms by (cases d) (simp add: readMessage_def readArguments_def)
qed

theorem readMessage_typetags_witness:
  "readPaddedString (NewReader (''/a'' @ [CHR 0x00, CHR 0x00] @ '',x'' @ [CHR 0x00, CHR 0x00]))
     = (Inr (''/a'', 4), \<lparr>size = 4096, buffered = '',x'' @ [CHR 0x00, CHR 0x00], source = []\<rparr>)
   \<and> readPaddedString \<lparr>size = 4096, buffered = '',x'' @ [CHR 0x00, CHR 0x00], source = []\<rparr>
     = (Inr ('',x'', 4), \<lparr>size = 4096, buffered = [], source = []\<rparr>)
   \<and> fst (readMessage (NewReader (''/a'' @ [CHR 0x00, CHR 0x00] @ '',x'' @ [CHR 0x00, CHR 0x00])) 0)
     = Inl ErrUnsupportedTypeTag"
proof -
  have a: "readPaddedString (NewReader (''/a'' @ [CHR 0x00, CHR 0x00] @ '',x'' @ [CHR 0x00, CHR 0x00]))
     = (Inr (''/a'', 4), \<lparr>size = 4096, buffered = '',x'' @ [CHR 0x00, CHR 0x00], source = []\<rparr>)"
    by code_simp
  have b: "readPaddedString \<lparr>size = 4096, buffered = '',x'' @ [CHR 0x00, CHR 0x00], source = []\<rparr>
     = (Inr ('',x'', 4), \<lparr>size = 4096, buffered = [], source = []\<rparr>)"
    by code_simp
  have c: "'',x'' = CHR '','' # [] @ CHR ''x'' # [] \<and> CHR ''x'' \<notin> set ''ihfdsbtNTF''
      \<and> readArgumentsLoop [] (NewMessage ''/a'' [], \<lparr>size = 4096, buffered = [], source = []\<rparr>, 0 + 4 + 4)
          = Continue (NewMessage ''/a'' [], \<lparr>size = 4096, buffered = [], source = []\<rparr>, 0 + 4 + 4)"
    by simp
  from readMessage_typetags [OF a b, of 0] c
  have "fst (readMessage (NewReader (''/a'' @ [CHR 0x00, CHR 0x00] @ '',x'' @ [CHR 0x00, CHR 0x00])) 0)
     = Inl ErrUnsupportedTypeTag"
    by blast
  with a b show ?thesis
    by blast
qed

text \<open>
  C9 as stated fails: the type tag string \<open>,ix\<close> starts with a comma and \<open>x\<close> is not a
  known tag, but with no bytes after it the read for \<open>i\<close> fails first and decoding ends
  with \<open>EOF\<close>.
\<close>

theorem readMessage_typetags_counterexample:
  "readPaddedString \<lparr>size = 4096, buffered = '',ix'' @ [CHR 0x00], source = []\<rparr>
     = (Inr ('',ix'', 4), \<lparr>size = 4096, buffered = [], source = []\<rparr>)
   \<and> readMessage (NewReader (''/a'' @ [CHR 0x00, CHR 0x00] @ '',ix'' @ [CHR 0x00])) 0
     = (Inl EOF, \<lparr>size = 4096, buffered = [], source = []\<rparr>, 8)"
  by code_simp

section \<open>Defects at concrete inputs\<close>

text \<open>
  C3. The branch for the tag \<open>t\<close> returns \<^verbatim>\<open>nil\<close> where every other branch returns
  the error of the failed read: a message whose type tag string is \<open>,t\<close> and whose
  time tag is missing decodes with success and no argument.
\<close>

theorem readMessage_timetag_error_swallowed:
  "readMessage (NewReader (''/a'' @ [CHR 0x00, CHR 0x00] @ '',t'' @ [CHR 0x00, CHR 0x00])) 0
     = (Inr \<lparr>Address = ''/a'', Arguments = []\<rparr>, \<lparr>size = 4096, buffered = [], source = []\<rparr>, 8)
   \<and> readMessage (NewReader (''/a'' @ [CHR 0x00, CHR 0x00] @ '',i'' @ [CHR 0x00, CHR 0x00])) 0
     = (Inl EOF, \<lparr>size = 4096, buffered = [], source = []\<rparr>, 8)"
  by code_simp

text \<open>
  C7. \<^verbatim>\<open>writePaddedString\<close> truncates only when the first null byte is at an index
  greater than 0: a string that starts with a null byte is written whole, null byte
  included, where truncation at the first null would write four null bytes.
\<close>

theorem writePaddedString_leading_null:
  "writePaddedString (CHR 0x00 # ''abc'') [] = (8, CHR 0x00 # ''abc'' @ replicate 4 (CHR 0x00))
   \<and> writePaddedString (''ab'' @ CHR 0x00 # ''c'') [] = (4, ''ab'' @ replicate 2 (CHR 0x00))"
  by code_simp

text \<open>
  C10. For the tag \<open>s\<close> the counter is advanced by the length of the string without
  its terminator plus the padding of that length: reading \<open>abcd\<close>, its terminator and
  three padding bytes takes 8 bytes from the reader and adds 4 to the counter.
\<close>

theorem readArgument_string_counter:
  "readArgument (CHR ''s'') (NewMessage ''/a'' [], NewReader (''abcd'' @ replicate 4 (CHR 0x00)), 0)
     = Continue (\<lparr>Address = ''/a'', Arguments = [GoString ''abcd'']\<rparr>,
                 \<lparr>size = 4096, buffered = [], source = []\<rparr>, 4)
   \<and> length (remaining (NewReader (''abcd'' @ replicate 4 (CHR 0x00)))) = 8"
  by code_simp

text \<open>
  C4. \<^verbatim>\<open>readBlob\<close> compares the length with \<^verbatim>\<open>reader.Buffered()\<close>, not with the bytes
  that remain. With the default reader, a blob of 4096 bytes that is fully there is
  refused: after the length was read, 4092 of its bytes are buffered and 4 are still
  to come. The same with a buffer of 16 bytes and a blob of 20 bytes.
\<close>

theorem readBlob_rejects_unbuffered:
  "readBlob (NewReader (CHR 0x00 # CHR 0x00 # CHR 0x10 # CHR 0x00 # replicate 4096 (CHR ''x'')))
     = (Inl (ErrInvalidBlobLength 4096),
        \<lparr>size = 4096, buffered = replicate 4092 (CHR ''x''), source = replicate 4 (CHR ''x'')\<rparr>)
   \<and> readBlob (NewReaderSize ([CHR 0x00, CHR 0x00, CHR 0x00, CHR 0x14] @ replicate 20 (CHR ''x'')) 16)
     = (Inl (ErrInvalidBlobLength 20),
        \<lparr>size = 16, buffered = replicate 12 (CHR ''x''), source = replicate 8 (CHR ''x'')\<rparr>)"
proof
  have r: "Read 4 (NewReader (CHR 0x00 # CHR 0x00 # CHR 0x10 # CHR 0x00 # replicate 4096 (CHR ''x'')))
      = (([CHR 0x00, CHR 0x00, CHR 0x10, CHR 0x00], None),
         \<lparr>size = 4096, buffered = replicate 4092 (CHR ''x''), source = replicate 4 (CHR ''x'')\<rparr>)"
    by (simp add: Read_def NewReader_def NewReaderSize_def bufLen_def Let_def)
  have b: "binaryRead 4 (NewReader (CHR 0x00 # CHR 0x00 # CHR 0x10 # CHR 0x00 # replicate 4096 (CHR ''x'')))
      = (Inr [CHR 0x00, CHR 0x00, CHR 0x10, CHR 0x00],
         \<lparr>size = 4096, buffered = replicate 4092 (CHR ''x''), source = replicate 4 (CHR ''x'')\<rparr>)"
    by (simp add: binaryRead_def ReadAtLeast.simps [of 4] r)
  have g: "get32 [CHR 0x00, CHR 0x00, CHR 0x10, CHR 0x00] = 4096"
    by (simp add: get32_def Uint_def)
  show "readBlob (NewReader (CHR 0x00 # CHR 0x00 # CHR 0x10 # CHR 0x00 # replicate 4096 (CHR ''x'')))
     = (Inl (ErrInvalidBlobLength 4096),
        \<lparr>size = 4096, buffered = replicate 4092 (CHR ''x''), source = replicate 4 (CHR ''x'')\<rparr>)"
    by (simp add: readBlob_def b g Buffered_def Let_def)
next
  show "readBlob (NewReaderSize ([CHR 0x00, CHR 0x00, CHR 0x00, CHR 0x14] @ replicate 20 (CHR ''x'')) 16)
     = (Inl (ErrInvalidBlobLength 20),
        \<lparr>size = 16, buffered = replicate 12 (CHR ''x''), source = replicate 8 (CHR ''x'')\<rparr>)"
    by code_simp
qed

text \<open>
  The same at the level of messages: the message with the address \<open>/a\<close> and one blob
  of 4096 bytes is encoded, and decoding the bytes with the default reader fails.
\<close>

lemma MarshalBinary_long_blob:
  "MarshalBinary \<lparr>Address = ''/a'', Arguments = [GoBytes (replicate 4096 (CHR ''x''))]\<rparr>
     = Inr (''/a'' @ CHR 0x00 # CHR 0x00 # '',b'' @ CHR 0x00 # CHR 0x00
            # CHR 0x00 # CHR 0x00 # CHR 0x10 # CHR 0x00 # replicate 4096 (CHR ''x''))"
proof -
  have p: "put32 4096 = [CHR 0x00, CHR 0x00, CHR 0x10, CHR 0x00]"
    by code_simp
  have a: "writePaddedString ''/a'' [] = (4, ''/a'' @ [CHR 0x00, CHR 0x00])"
    by code_simp
  have t: "writePaddedString '',b'' (''/a'' @ [CHR 0x00, CHR 0x00])
      = (4, ''/a'' @ [CHR 0x00, CHR 0x00] @ '',b'' @ [CHR 0x00, CHR 0x00])"
    by code_simp
  have q: "padBytesNeeded 4096 = 0"
    by code_simp
  show ?thesis
    using a t by (simp add: MarshalBinary_def writeBlob_def p q)
qed

lemma readMessage_long_blob:
  "fst (readMessage (NewReader (''/a'' @ CHR 0x00 # CHR 0x00 # '',b'' @ CHR 0x00 # CHR 0x00
            # CHR 0x00 # CHR 0x00 # CHR 0x10 # CHR 0x00 # replicate 4096 (CHR ''x''))) 0)
     = Inl (ErrInvalidBlobLength 4096)"
proof -
  have g: "get32 [CHR 0x00, CHR 0x00, CHR 0x10, CHR 0x00] = 4096"
    by (simp add: get32_def Uint_def)
  have p3: "padBytesNeeded 3 = 1"
    by code_simp
  show ?thesis
    by (simp add: readMessage_def readArguments_def readPaddedString_def ReadString_def
        ReadStringLoop.simps fill_def NewReader_def NewReaderSize_def bufLen_def Let_def
        Read_def p3 NewMessage_def readBlob_def binaryRead_def ReadAtLeast.simps g Buffered_def)
qed

section \<open>What the reader has left\<close>

lemma Read_remaining:
  assumes "Read n b = ((bs, e), b')"
  shows "remaining b = bs @ remaining b'"
proof (cases "n = 0")
  case True
  with assms show ?thesis by (simp add: Read_def)
next
  case n0: False
  show ?thesis
  proof (cases "buffered b = []")
    case False
    with n0 assms show ?thesis
      by (auto simp: Read_def remaining_def)
  next
    case be: True
    show ?thesis
    proof (cases "source b = []")
      case True
      with n0 be assms show ?thesis
        by (auto simp: Read_def remaining_def)
    next
      case se: False
      show ?thesis
      proof (cases "n \<ge> bufLen b")
        case True
        with n0 be se assms show ?thesis
          by (auto simp: Read_def remaining_def)
      next
        case False
        define k where "k = min (bufLen b) (length (source b))"
        from False n0 be se assms
        have bs: "bs = take n (take k (source b))"
          and b': "b' = b\<lparr>buffered := drop n (take k (source b)), source := drop k (source b)\<rparr>"
          by (simp_all add: Read_def Let_def k_def)
        have "take n (take k (source b)) @ drop n (take k (source b)) @ drop k (source b) = source b"
          by (simp only: append_assoc [symmetric] append_take_drop_id)
        with be show ?thesis
          by (simp add: bs b' remaining_def)
      qed
    qed
  qed
qed

lemma Read_length:
  assumes "Read n b = ((bs, e), b')"
  shows "length bs \<le> n"
  using assms by (auto simp: Read_def Let_def split: if_splits)

lemma ReadAtLeast_remaining:
  assumes "ReadAtLeast m b got err = ((bs, e), b')"
  shows "got @ remaining b = bs @ remaining b'"
  using assms
proof (induction m b got err rule: ReadAtLeast.induct)
  case (1 m b got err)
  show ?case
  proof (cases "length got < m \<and> err = None")
    case True
    obtain cs err' b1 where r: "Read (m - length got) b = ((cs, err'), b1)"
      by (metis prod.exhaust)
    from True r "1.prems" have "ReadAtLeast m b1 (got @ cs) err' = ((bs, e), b')"
      by (simp add: ReadAtLeast.simps [of m b got err])
    with "1.IH" [OF True r [symmetric] refl] have "(got @ cs) @ remaining b1 = bs @ remaining b'"
      by blast
    with Read_remaining [OF r] show ?thesis
      by simp
  next
    case False
    with "1.prems" show ?thesis
      by (auto simp: ReadAtLeast.simps [of m b got err] split: if_splits)
  qed
qed

lemma ReadAtLeast_length:
  assumes "ReadAtLeast m b got err = ((bs, None), b')" and "length got \<le> m"
  shows "length bs = m"
  using assms
proof (induction m b got err rule: ReadAtLeast.induct)
  case (1 m b got err)
  show ?case
  proof (cases "length got < m \<and> err = None")
    case True
    obtain cs err' b1 where r: "Read (m - length got) b = ((cs, err'), b1)"
      by (metis prod.exhaust)
    from True r "1.prems" have "ReadAtLeast m b1 (got @ cs) err' = ((bs, None), b')"
      by (simp add: ReadAtLeast.simps [of m b got err])
    moreover have "length (got @ cs) \<le> m"
      using Read_length [OF r] True by auto
    ultimately show ?thesis
      using "1.IH" [OF True r [symmetric] refl] by blast
  next
    case False
    with "1.prems" show ?thesis
      by (auto simp: ReadAtLeast.simps [of m b got err] split: if_splits)
  qed
qed

lemma binaryRead_ok:
  assumes "binaryRead n b = (Inr bs, b')"
  shows "remaining b = bs @ remaining b' \<and> length bs = n"
proof -
  obtain cs err b1 where r: "ReadAtLeast n b [] None = ((cs, err), b1)"
    by (metis prod.exhaust)
  with assms have "err = None \<and> cs = bs \<and> b1 = b'"
    by (cases err) (auto simp: binaryRead_def)
  with r ReadAtLeast_remaining [OF r] ReadAtLeast_length [of n b "[]" None bs b'] show ?thesis
    by simp
qed

lemma binaryRead_suffix:
  assumes "binaryRead n b = (res, b')"
  shows "suffix (remaining b') (remaining b)"
proof -
  obtain cs err b1 where r: "ReadAtLeast n b [] None = ((cs, err), b1)"
    by (metis prod.exhaust)
  with assms have "b1 = b'"
    by (cases err) (auto simp: binaryRead_def)
  with ReadAtLeast_remaining [OF r] show ?thesis
    by (simp add: suffix_def)
qed

lemma fill_remaining:
  assumes "fill b = (b', e)"
  shows "remaining b' = remaining b"
  using assms by (auto simp: fill_def remaining_def Let_def)

lemma PeekLoop_remaining:
  assumes "PeekLoop n b err = (b', e)"
  shows "remaining b' = remaining b"
  using assms
proof (induction n b err rule: PeekLoop.induct)
  case (1 n b err)
  show ?case
  proof (cases "length (buffered b) < n \<and> length (buffered b) < bufLen b \<and> err = None")
    case True
    obtain b1 e1 where f: "fill b = (b1, e1)"
      by (metis prod.exhaust)
    from True f "1.prems" have "PeekLoop n b1 e1 = (b', e)"
      by (simp add: PeekLoop.simps [of n b err])
    with "1.IH" [OF True f [symmetric]] fill_remaining [OF f] show ?thesis
      by simp
  next
    case False
    with "1.prems" show ?thesis
      by (simp add: PeekLoop.simps [of n b err])
  qed
qed

lemma Peek_remaining:
  assumes "Peek n b = (res, b')"
  shows "remaining b' = remaining b"
proof -
  obtain b1 e1 where p: "PeekLoop n b None = (b1, e1)"
    by (metis prod.exhaust)
  with assms have "b' = b1"
    by (auto simp: Peek_def split: if_splits)
  with PeekLoop_remaining [OF p] show ?thesis
    by simp
qed

lemma takeWhile_delim:
  assumes "d \<in> set xs"
  shows "takeWhile (\<lambda>x. x \<noteq> d) xs @ d # drop (Suc (length (takeWhile (\<lambda>x. x \<noteq> d) xs))) xs = xs"
  using assms by (induction xs) auto

lemma ReadStringLoop_remaining:
  assumes "ReadStringLoop delim b acc err = ((s, e), b')"
  shows "acc @ remaining b = s @ remaining b'"
  using assms
proof (induction delim b acc err rule: ReadStringLoop.induct)
  case (1 delim b acc err)
  show ?case
  proof (cases "delim \<in> set (buffered b)")
    case True
    from True "1.prems"
    have "s = acc @ takeWhile (\<lambda>x. x \<noteq> delim) (buffered b) @ [delim]"
      and "b' = b\<lparr>buffered := drop (Suc (length (takeWhile (\<lambda>x. x \<noteq> delim) (buffered b)))) (buffered b)\<rparr>"
      by (simp_all add: ReadStringLoop.simps [of delim b acc err] Let_def)
    then show ?thesis
      by (simp add: remaining_def takeWhile_delim [OF True])
  next
    case nf: False
    show ?thesis
    proof (cases "err \<noteq> None")
      case True
      with nf "1.prems" show ?thesis
        by (auto simp: ReadStringLoop.simps [of delim b acc err] remaining_def)
    next
      case ne: False
      show ?thesis
      proof (cases "length (buffered b) \<ge> bufLen b")
        case True
        with nf ne "1.prems"
        have "ReadStringLoop delim (b\<lparr>buffered := []\<rparr>) (acc @ buffered b) None = ((s, e), b')"
          by (simp add: ReadStringLoop.simps [of delim b acc err])
        with "1.IH"(1) [OF nf ne True] show ?thesis
          by (simp add: remaining_def)
      next
        case nofull: False
        obtain b1 err1 where f: "fill b = (b1, err1)"
          by (metis prod.exhaust)
        from nf ne nofull f "1.prems"
        have "ReadStringLoop delim b1 acc err1 = ((s, e), b')"
          by (simp add: ReadStringLoop.simps [of delim b acc err])
        with "1.IH"(2) [OF nf ne nofull f [symmetric]] fill_remaining [OF f] show ?thesis
          by simp
      qed
    qed
  qed
qed

lemma Read_suffix:
  assumes "Read n b = (res, b')"
  shows "suffix (remaining b') (remaining b)"
  using Read_remaining [of n b "fst res" "snd res" b'] assms
  by (simp add: suffix_def)

lemma ReadString_suffix:
  assumes "ReadString d b = (res, b')"
  shows "suffix (remaining b') (remaining b)"
  using ReadStringLoop_remaining [of d b "[]" None "fst res" "snd res" b'] assms
  by (simp add: suffix_def ReadString_def)

lemma readPaddedString_suffix:
  assumes "readPaddedString b = (res, b')"
  shows "suffix (remaining b') (remaining b)"
proof -
  obtain s err b1 where r: "ReadString (CHR 0x00) b = ((s, err), b1)"
    by (metis prod.exhaust)
  note s1 = ReadString_suffix [OF r]
  show ?thesis
  proof (cases "err = None \<and> padBytesNeeded (int (length s)) > 0")
    case True
    obtain res2 b2 where r2: "Read (nat (padBytesNeeded (int (length s)))) b1 = (res2, b2)"
      by (metis prod.exhaust)
    with True r assms have "b' = b2"
      by (cases res2; cases "snd res2") (auto simp: readPaddedString_def Let_def)
    with s1 Read_suffix [OF r2] show ?thesis
      using suffix_order.trans by blast
  next
    case False
    with r assms have "b' = b1"
      by (cases err) (auto simp: readPaddedString_def Let_def)
    with s1 show ?thesis by simp
  qed
qed

lemma readBlob_suffix:
  assumes "readBlob b = (res, b')"
  shows "suffix (remaining b') (remaining b)"
proof -
  obtain r1 b1 where r: "binaryRead 4 b = (r1, b1)"
    by (metis prod.exhaust)
  note s1 = binaryRead_suffix [OF r]
  show ?thesis
  proof (cases r1)
    case (Inl e)
    with r assms s1 show ?thesis
      by (simp add: readBlob_def)
  next
    case (Inr bs)
    let ?L = "sint (get32 bs)"
    show ?thesis
    proof (cases "?L < 1 \<or> ?L > sint (word_of_nat (Buffered b1) :: 32 word)")
      case True
      with Inr r assms s1 show ?thesis
        by (simp add: readBlob_def Let_def)
    next
      case ok: False
      obtain res2 b2 where r2: "Read (nat ?L) b1 = (res2, b2)"
        by (metis prod.exhaust)
      note s2 = suffix_order.trans [OF Read_suffix [OF r2] s1]
      show ?thesis
      proof (cases "snd res2 = None \<and> padBytesNeeded ?L > 0")
        case True
        obtain res3 b3 where r3: "Read (nat (padBytesNeeded ?L)) b2 = (res3, b3)"
          by (metis prod.exhaust)
        with True ok Inr r r2 assms have "b' = b3"
          by (cases res2; cases res3; cases "snd res3") (auto simp: readBlob_def Let_def)
        with suffix_order.trans [OF Read_suffix [OF r3] s2] show ?thesis
          by simp
      next
        case False
        with ok Inr r r2 assms have "b' = b2"
          by (cases res2; cases "snd res2") (auto simp: readBlob_def Let_def)
        with s2 show ?thesis by simp
      qed
    qed
  qed
qed

lemma readArgument_suffix:
  assumes "readArgument c (msg, b, start) = Continue (msg', b', start')
         \<or> readArgument c (msg, b, start) = Return e (msg', b', start')"
  shows "suffix (remaining b') (remaining b)"
  using assms
  by (auto simp: Let_def split: if_splits prod.splits sum.splits
      dest: binaryRead_suffix readPaddedString_suffix readBlob_suffix)

lemma readArgumentsLoop_suffix:
  assumes "readArgumentsLoop cs (msg, b, start) = Continue (msg', b', start')
         \<or> readArgumentsLoop cs (msg, b, start) = Return e (msg', b', start')"
  shows "suffix (remaining b') (remaining b)"
  using assms
proof (induction cs arbitrary: msg b start)
  case Nil
  then show ?case by auto
next
  case (Cons c cs)
  show ?case
  proof (cases "readArgument c (msg, b, start)")
    case (Continue d)
    obtain m1 b1 s1 where d: "d = (m1, b1, s1)"
      by (cases d) auto
    from Continue d have "suffix (remaining b1) (remaining b)"
      using readArgument_suffix [of c msg b start m1 b1 s1] by simp
    moreover from Cons.prems Continue d have "suffix (remaining b') (remaining b1)"
      using Cons.IH [of m1 b1 s1] by simp
    ultimately show ?thesis
      using suffix_order.trans by blast
  next
    case (Return e1 d)
    with Cons.prems have "readArgument c (msg, b, start) = Return e (msg', b', start')"
      by simp
    then show ?thesis
      using readArgument_suffix [of c msg b start msg' b' start' e] by simp
  qed
qed

lemma readArguments_suffix:
  assumes "readArguments msg b start = (e, (msg', b', start'))"
  shows "suffix (remaining b') (remaining b)"
proof -
  obtain r1 b1 where r: "readPaddedString b = (r1, b1)"
    by (metis prod.exhaust)
  note s1 = readPaddedString_suffix [OF r]
  show ?thesis
  proof (cases r1)
    case (Inl err)
    with r assms s1 show ?thesis
      by (simp add: readArguments_def)
  next
    case (Inr tn)
    obtain typetags n where tn: "tn = (typetags, n)"
      by (cases tn) auto
    show ?thesis
    proof (cases "length typetags = 0 \<or> hd typetags \<noteq> CHR '',''")
      case True
      with Inr tn r assms s1 show ?thesis
        by (auto simp: readArguments_def split: if_splits)
    next
      case False
      with Inr tn r assms
      have "readArgumentsLoop (tl typetags) (msg, b1, start + n) = Continue (msg', b', start')
          \<or> readArgumentsLoop (tl typetags) (msg, b1, start + n) = Return e (msg', b', start')"
        by (auto simp: readArguments_def split: flow.splits)
      from readArgumentsLoop_suffix [OF this] s1 show ?thesis
        using suffix_order.trans by blast
    qed
  qed
qed

lemma readMessage_suffix:
  assumes "readMessage b start = (res, b', start')"
  shows "suffix (remaining b') (remaining b)"
proof -
  obtain r1 b1 where r: "readPaddedString b = (r1, b1)"
    by (metis prod.exhaust)
  note s1 = readPaddedString_suffix [OF r]
  show ?thesis
  proof (cases r1)
    case (Inl err)
    with r assms s1 show ?thesis
      by (simp add: readMessage_def)
  next
    case (Inr an)
    obtain addr n where an: "an = (addr, n)"
      by (cases an) auto
    obtain e m2 b2 s2 where ra: "readArguments (NewMessage addr []) b1 (start + n) = (e, (m2, b2, s2))"
      by (metis prod.exhaust)
    with Inr an r assms have "b' = b2"
      by (cases e) (auto simp: readMessage_def)
    with readArguments_suffix [OF ra] s1 show ?thesis
      using suffix_order.trans by blast
  qed
qed

text \<open>
  With \<open>n\<close> bytes left a read of \<open>n\<close> bytes gives them and leaves the rest; with fewer
  it fails. A peek at one byte gives the next byte and consumes nothing.
\<close>

lemma Read_no_error:
  assumes "remaining r \<noteq> []"
  shows "\<exists>bs r1. Read n r = ((bs, None), r1)"
  using assms by (auto simp: Read_def remaining_def Let_def)

lemma ReadAtLeast_enough:
  assumes "err = None" and "length got \<le> m" and "m - length got \<le> length (remaining r)"
  shows "\<exists>bs r1. ReadAtLeast m r got err = ((bs, None), r1)"
  using assms
proof (induction m r got err rule: ReadAtLeast.induct)
  case (1 m b got err)
  show ?case
  proof (cases "length got < m")
    case False
    then show ?thesis
      by (simp add: ReadAtLeast.simps [of m b got])
  next
    case True
    with "1.prems"(3) have ne: "remaining b \<noteq> []"
      by auto
    from Read_no_error [OF ne, of "m - length got"] obtain cs b1
      where r: "Read (m - length got) b = ((cs, None), b1)"
      by blast
    have l: "length cs \<le> m - length got"
      by (rule Read_length [OF r])
    have "remaining b = cs @ remaining b1"
      by (rule Read_remaining [OF r])
    then have "length (remaining b) = length cs + length (remaining b1)"
      by simp
    with l "1.prems"(3) True have a: "length (got @ cs) \<le> m"
      and b: "m - length (got @ cs) \<le> length (remaining b1)"
      by simp_all
    from True "1.prems"(1) have c: "length got < m \<and> err = None"
      by simp
    from "1.IH" [OF c r [symmetric] refl refl a b]
    obtain bs r1 where "ReadAtLeast m b1 (got @ cs) None = ((bs, None), r1)"
      by blast
    with True r "1.prems"(1) show ?thesis
      by (simp add: ReadAtLeast.simps [of m b got])
  qed
qed

lemma binaryRead_enough:
  assumes "n \<le> length (remaining r)"
  shows "\<exists>r1. binaryRead n r = (Inr (take n (remaining r)), r1)
           \<and> remaining r1 = drop n (remaining r)"
proof -
  from ReadAtLeast_enough [of None "[]" n r] assms obtain bs r1
    where "ReadAtLeast n r [] None = ((bs, None), r1)"
    by auto
  then have b: "binaryRead n r = (Inr bs, r1)"
    by (simp add: binaryRead_def)
  from binaryRead_ok [OF b] have "remaining r = bs @ remaining r1" and "length bs = n"
    by simp_all
  then have "take n (remaining r) = bs" and "drop n (remaining r) = remaining r1"
    by simp_all
  with b show ?thesis
    by auto
qed

lemma binaryRead_short:
  assumes "length (remaining r) < n"
  shows "\<exists>e r1. binaryRead n r = (Inl e, r1)"
proof (cases "binaryRead n r")
  case (Pair res r1)
  show ?thesis
  proof (cases res)
    case (Inl e)
    with Pair show ?thesis by blast
  next
    case (Inr bs)
    with Pair binaryRead_ok [of n r bs r1] have "length (remaining r) = n + length (remaining r1)"
      by simp
    with assms show ?thesis by simp
  qed
qed

lemma PeekLoop_first:
  assumes "PeekLoop n b err = (b', e)" and "buffered b \<noteq> [] \<or> err = None \<and> source b \<noteq> []"
    and "0 < n"
  shows "buffered b' \<noteq> []"
  using assms
proof (induction n b err rule: PeekLoop.induct)
  case (1 n b err)
  show ?case
  proof (cases "length (buffered b) < n \<and> length (buffered b) < bufLen b \<and> err = None")
    case True
    obtain b1 e1 where f: "fill b = (b1, e1)"
      by (metis prod.exhaust)
    from True f "1.prems" have p: "PeekLoop n b1 e1 = (b', e)"
      by (simp add: PeekLoop.simps [of n b err])
    from f "1.prems"(2) have "buffered b1 \<noteq> []"
      by (auto simp: fill_def Let_def bufLen_def min_def max_def split: if_splits)
    with "1.IH" [OF True f [symmetric] p] "1.prems"(3) show ?thesis
      by simp
  next
    case False
    with "1.prems" show ?thesis
      by (auto simp: PeekLoop.simps [of n b err] bufLen_def)
  qed
qed

lemma Peek_first:
  assumes "remaining r = c # rest"
  shows "\<exists>r1. Peek 1 r = (([c], None), r1) \<and> remaining r1 = remaining r"
proof -
  obtain b1 e1 where p: "PeekLoop 1 r None = (b1, e1)"
    by (metis prod.exhaust)
  from assms have "buffered r \<noteq> [] \<or> None = (None :: error option) \<and> source r \<noteq> []"
    by (auto simp: remaining_def)
  from PeekLoop_first [OF p this] have ne: "buffered b1 \<noteq> []"
    by simp
  have rem: "remaining b1 = remaining r"
    by (rule PeekLoop_remaining [OF p])
  with assms ne have "take 1 (buffered b1) = [c]"
    by (cases "buffered b1") (simp_all add: remaining_def)
  with p ne have "Peek 1 r = (([c], None), b1)"
    by (cases "buffered b1") (simp_all add: Peek_def bufLen_def)
  with rem show ?thesis
    by blast
qed


text \<open>
  Reading depends on the bytes read only through the bytes it returns: readers that
  are the same beyond their next \<open>k\<close> bytes are the same reader once \<open>k\<close> bytes, or all
  there are, have been read.
\<close>

lemma Read_shape:
  assumes "Read n r = ((bs, e), r1)" and "Read n r' = ((bs', e'), r1')"
    and "size r = size r'" and "length (buffered r) = length (buffered r')"
    and "length (source r) = length (source r')"
  shows "length bs = length bs' \<and> e = e' \<and> size r1 = size r1'
       \<and> length (buffered r1) = length (buffered r1')
       \<and> length (source r1) = length (source r1')"
proof -
  from assms(4) have b: "buffered r = [] \<longleftrightarrow> buffered r' = []"
    by (metis length_0_conv)
  from assms(5) have s: "source r = [] \<longleftrightarrow> source r' = []"
    by (metis length_0_conv)
  from assms(3) have l: "bufLen r = bufLen r'"
    by (simp add: bufLen_def)
  consider "n = 0" | "n \<noteq> 0" "buffered r \<noteq> []"
    | "n \<noteq> 0" "buffered r = []" "source r = []"
    | "n \<noteq> 0" "buffered r = []" "source r \<noteq> []" "n \<ge> bufLen r"
    | "n \<noteq> 0" "buffered r = []" "source r \<noteq> []" "\<not> n \<ge> bufLen r"
    by blast
  then show ?thesis
  proof cases
    case 1
    with assms show ?thesis by (simp add: Read_def)
  next
    case 2
    with b assms show ?thesis by (auto simp: Read_def)
  next
    case 3
    with b s assms show ?thesis by (auto simp: Read_def)
  next
    case 4
    with b s l assms show ?thesis by (auto simp: Read_def)
  next
    case 5
    with b s l assms show ?thesis by (auto simp: Read_def Let_def)
  qed
qed

lemma drop_append_same:
  assumes "drop k (xs @ ys) = drop k (xs' @ ys')" and "length xs = length xs'"
  shows "drop (k - length xs) ys = drop (k - length xs) ys'"
  using assms by simp

lemma Read_same:
  assumes "sameBeyond k r r'" and "Read n r = ((bs, e), r1)" and "Read n r' = ((bs', e'), r1')"
  shows "length bs = length bs' \<and> e = e' \<and> sameBeyond (k - length bs) r1 r1'"
proof -
  from assms(1) have s: "size r = size r'" "length (buffered r) = length (buffered r')"
    "length (source r) = length (source r')" "drop k (remaining r) = drop k (remaining r')"
    by (simp_all add: sameBeyond_def)
  note sh = Read_shape [OF assms(2) assms(3) s(1) s(2) s(3)]
  from s(4) Read_remaining [OF assms(2)] Read_remaining [OF assms(3)]
  have "drop k (bs @ remaining r1) = drop k (bs' @ remaining r1')"
    by simp
  from drop_append_same [OF this] sh
  have "drop (k - length bs) (remaining r1) = drop (k - length bs) (remaining r1')"
    by simp
  with sh show ?thesis
    by (simp add: sameBeyond_def)
qed

lemma sameBeyond_eq:
  assumes "sameBeyond k r r'" and "k = 0 \<or> remaining r = []"
  shows "r = r'"
proof -
  from assms have a: "size r = size r'" "length (buffered r) = length (buffered r')"
    and b: "remaining r = remaining r'"
    by (auto simp: sameBeyond_def remaining_def)
  from b a(2) have "buffered r = buffered r'" "source r = source r'"
    by (simp_all add: remaining_def)
  with a(1) show ?thesis
    by simp
qed

lemma Read_error_empty:
  assumes "Read n r = ((bs, Some e), r1)"
  shows "remaining r1 = []"
  using assms by (auto simp: Read_def Let_def remaining_def split: if_splits)

lemma ReadAtLeast_same:
  assumes "ReadAtLeast m r got err = ((bs, e), r1)"
    and "ReadAtLeast m r' got' err = ((bs', e'), r1')"
    and "sameBeyond k r r'" and "length got' = length got" and "k \<le> m - length got"
    and "err \<noteq> None \<longrightarrow> remaining r = []"
  shows "e = e' \<and> r1 = r1'"
  using assms
proof (induction m r got err arbitrary: r' got' k rule: ReadAtLeast.induct)
  case (1 m b got err)
  show ?case
  proof (cases "length got < m \<and> err = None")
    case True
    obtain cs err1 b1 where r: "Read (m - length got) b = ((cs, err1), b1)"
      by (metis prod.exhaust)
    obtain cs' err1' b1' where r': "Read (m - length got) r' = ((cs', err1'), b1')"
      by (metis prod.exhaust)
    from Read_same [OF "1.prems"(3) r r']
    have l: "length cs = length cs'" and ee: "err1 = err1'"
      and sb: "sameBeyond (k - length cs) b1 b1'"
      by blast+
    from True r "1.prems"(1) have x: "ReadAtLeast m b1 (got @ cs) err1 = ((bs, e), r1)"
      by (simp add: ReadAtLeast.simps [of m b got err])
    from True r' ee "1.prems"(2) "1.prems"(4)
    have y: "ReadAtLeast m b1' (got' @ cs') err1 = ((bs', e'), r1')"
      by (simp add: ReadAtLeast.simps [of m r' got' err])
    have z: "length (got' @ cs') = length (got @ cs)"
      using l "1.prems"(4) by simp
    have w: "k - length cs \<le> m - length (got @ cs)"
      using "1.prems"(5) by simp
    have v: "err1 \<noteq> None \<longrightarrow> remaining b1 = []"
      using Read_error_empty [of "m - length got" b cs _ b1] r by auto
    from "1.IH" [OF True r [symmetric] refl x y sb z w v] show ?thesis .
  next
    case False
    define X where "X = (if length got \<ge> m then None
                  else if length got > 0 \<and> err = Some EOF then Some ErrUnexpectedEOF
                  else err)"
    from False have "ReadAtLeast m b got err = ((got, X), b)"
      unfolding X_def by (auto simp: ReadAtLeast.simps [of m b got err])
    with "1.prems"(1) have a: "r1 = b" "e = X"
      by simp_all
    from False "1.prems"(4) have "ReadAtLeast m r' got' err = ((got', X), r')"
      unfolding X_def by (auto simp: ReadAtLeast.simps [of m r' got' err])
    with "1.prems"(2) have b: "r1' = r'" "e' = X"
      by simp_all
    from False "1.prems"(5) "1.prems"(6) have "k = 0 \<or> remaining b = []"
      by auto
    from sameBeyond_eq [OF "1.prems"(3) this] a b show ?thesis
      by simp
  qed
qed

lemma binaryRead_same:
  assumes "sameBeyond k r r'" and "k \<le> n"
  shows "(\<exists>bs bs' r1. binaryRead n r = (Inr bs, r1) \<and> binaryRead n r' = (Inr bs', r1))
       \<or> (\<exists>e r1. binaryRead n r = (Inl e, r1) \<and> binaryRead n r' = (Inl e, r1))"
proof -
  obtain bs e r1 where a: "ReadAtLeast n r [] None = ((bs, e), r1)"
    by (metis prod.exhaust)
  obtain bs' e' r1' where b: "ReadAtLeast n r' [] None = ((bs', e'), r1')"
    by (metis prod.exhaust)
  from ReadAtLeast_same [OF a b assms(1)] assms(2) have "e = e'" "r1 = r1'"
    by simp_all
  show ?thesis
  proof (cases e)
    case None
    with a b \<open>e = e'\<close> \<open>r1 = r1'\<close>
    have a': "ReadAtLeast n r [] None = ((bs, None), r1)"
      and b': "ReadAtLeast n r' [] None = ((bs', None), r1)"
      by blast+
    have "binaryRead n r = (Inr bs, r1)" "binaryRead n r' = (Inr bs', r1)"
      by (simp_all only: binaryRead_def a' b' prod.case option.case)
    then show ?thesis by blast
  next
    case (Some x)
    with a b \<open>e = e'\<close> \<open>r1 = r1'\<close>
    have a': "ReadAtLeast n r [] None = ((bs, Some x), r1)"
      and b': "ReadAtLeast n r' [] None = ((bs', Some x), r1)"
      by blast+
    have "binaryRead n r = (Inl x, r1)" "binaryRead n r' = (Inl x, r1)"
      by (simp_all only: binaryRead_def a' b' prod.case option.case)
    then show ?thesis by blast
  qed
qed

section \<open>Bundles\<close>

lemma readBundleLoop_exit:
  assumes "\<not> start < end"
  shows "readBundleLoop fuel reader start end timeTag elems
       = Some (Inr (PacketBundle timeTag elems), reader, start)"
  using assms by (cases fuel) simp_all

lemma readBundleLoop_end:
  assumes "readBundleLoop fuel reader start end timeTag elems = Some (Inr p, reader', start')"
  shows "end \<le> start'"
  using assms
proof (induction fuel arbitrary: reader start elems)
  case 0
  then show ?case by (auto split: if_splits)
next
  case (Suc fuel)
  show ?case
  proof (cases "start < end")
    case False
    with Suc.prems show ?thesis by simp
  next
    case True
    obtain r1 b1 where r: "binaryRead 4 reader = (r1, b1)"
      by (metis prod.exhaust)
    show ?thesis
    proof (cases r1)
      case (Inl e)
      with True r Suc.prems show ?thesis by simp
    next
      case (Inr bs)
      show ?thesis
      proof (cases "readPacket fuel b1 (start + 4) end")
        case None
        with True r Inr Suc.prems show ?thesis by simp
      next
        case (Some x)
        obtain res b2 s2 where x: "x = (res, b2, s2)"
          by (cases x) auto
        show ?thesis
        proof (cases res)
          case (Inl e)
          with True r Inr Some x Suc.prems show ?thesis by simp
        next
          case (Inr q)
          with True r \<open>r1 = Inr bs\<close> Some x Suc.prems
          have "readBundleLoop fuel b2 s2 end timeTag (elems @ [q]) = Some (Inr p, reader', start')"
            by simp
          then show ?thesis by (rule Suc.IH)
        qed
      qed
    qed
  qed
qed

lemma readBundle_end:
  assumes "readBundle fuel reader start end = Some (Inr p, reader', start')"
  shows "end \<le> start'"
  using assms
  by (auto simp: readBundle.simps split: prod.splits sum.splits if_splits dest: readBundleLoop_end)

lemma shrinks_Some [simp]:
  "shrinks (Some (x, r', s')) r = suffix (remaining r') (remaining r)"
  by (simp add: shrinks_def)

lemma shrinks_None [simp]: "shrinks None r = True"
  by (simp add: shrinks_def)

lemma shrinks_trans:
  assumes "shrinks res r1" and "suffix (remaining r1) (remaining r)"
  shows "shrinks res r"
  using assms by (auto simp: shrinks_def split: option.splits intro: suffix_order.trans)

lemma readBundle_shrinks:
  assumes L: "\<And>r s tt el. shrinks (readBundleLoop f r s e tt el) r"
  shows "shrinks (readBundle f r s e) r"
proof -
  obtain r1 b1 where p: "readPaddedString r = (r1, b1)"
    by (metis prod.exhaust)
  note s1 = readPaddedString_suffix [OF p]
  show ?thesis
  proof (cases r1)
    case (Inl err)
    with p s1 show ?thesis by (simp add: readBundle.simps)
  next
    case (Inr tn)
    obtain tag n where tn: "tn = (tag, n)" by (cases tn) auto
    show ?thesis
    proof (cases "tag \<noteq> bundleTagString")
      case True
      with Inr tn p s1 show ?thesis by (simp add: readBundle.simps)
    next
      case False
      obtain r2 b2 where q: "binaryRead 8 b1 = (r2, b2)"
        by (metis prod.exhaust)
      note s2 = suffix_order.trans [OF binaryRead_suffix [OF q] s1]
      show ?thesis
      proof (cases r2)
        case (Inl err)
        with False Inr tn p q s2 show ?thesis by (simp add: readBundle.simps)
      next
        case (Inr bs)
        with False \<open>r1 = Inr tn\<close> tn p q
        have "readBundle f r s e = readBundleLoop f b2 (s + n + 8) e (get64 bs) []"
          by (simp add: readBundle.simps)
        with shrinks_trans [OF L s2] show ?thesis by simp
      qed
    qed
  qed
qed

lemma readPacket_shrinks:
  assumes B: "\<And>r s. shrinks (readBundle f r s e) r"
  shows "shrinks (readPacket f r s e) r"
proof -
  obtain buf err b1 where p: "Peek 1 r = ((buf, err), b1)"
    by (metis prod.exhaust)
  note s1 = Peek_remaining [OF p]
  show ?thesis
  proof (cases err)
    case (Some e1)
    with p s1 show ?thesis by (simp add: readPacket.simps)
  next
    case None
    show ?thesis
    proof (cases "hd buf = CHR ''/''")
      case True
      obtain res b2 s2 where m: "readMessage b1 s = (res, b2, s2)"
        by (metis prod.exhaust)
      with True None p readMessage_suffix [OF m] s1 show ?thesis
        by (cases res) (simp_all add: readPacket.simps)
    next
      case False
      with None p s1 shrinks_trans [OF B [of b1 s], of r] show ?thesis
        by (simp add: readPacket.simps)
    qed
  qed
qed

lemma readBundleLoop_Suc_shrinks:
  assumes P: "\<And>r s. shrinks (readPacket f r s e) r"
    and L: "\<And>r s tt el. shrinks (readBundleLoop f r s e tt el) r"
  shows "shrinks (readBundleLoop (Suc f) r s e tt el) r"
proof (cases "s < e")
  case False
  then show ?thesis by simp
next
  case True
  obtain r1 b1 where q: "binaryRead 4 r = (r1, b1)"
    by (metis prod.exhaust)
  note s1 = binaryRead_suffix [OF q]
  show ?thesis
  proof (cases r1)
    case (Inl err)
    with True q s1 show ?thesis by simp
  next
    case (Inr bs)
    show ?thesis
    proof (cases "readPacket f b1 (s + 4) e")
      case None
      with True q Inr show ?thesis by simp
    next
      case (Some x)
      obtain res b2 s2 where x: "x = (res, b2, s2)" by (cases x) auto
      from P [of b1 "s + 4"] Some x have s2: "suffix (remaining b2) (remaining r)"
        using s1 suffix_order.trans by fastforce
      show ?thesis
      proof (cases res)
        case (Inl err)
        with True q Inr Some x s2 show ?thesis by simp
      next
        case (Inr p)
        with True q \<open>r1 = Inr bs\<close> Some x
        have "readBundleLoop (Suc f) r s e tt el = readBundleLoop f b2 s2 e tt (el @ [p])"
          by simp
        with shrinks_trans [OF L s2] show ?thesis by simp
      qed
    qed
  qed
qed

lemma read_shrinks:
  "(\<forall>r s tt el. shrinks (readBundleLoop f r s e tt el) r)
   \<and> (\<forall>r s. shrinks (readBundle f r s e) r)
   \<and> (\<forall>r s. shrinks (readPacket f r s e) r)"
proof (induction f)
  case 0
  have l: "\<And>r s tt el. shrinks (readBundleLoop 0 r s e tt el) r"
    by simp
  have b: "\<And>r s. shrinks (readBundle 0 r s e) r"
    by (rule readBundle_shrinks) (rule l)
  have p: "\<And>r s. shrinks (readPacket 0 r s e) r"
    by (rule readPacket_shrinks) (rule b)
  from l b p show ?case by blast
next
  case (Suc f)
  have l: "\<And>r s tt el. shrinks (readBundleLoop (Suc f) r s e tt el) r"
    by (rule readBundleLoop_Suc_shrinks) (use Suc in blast)+
  have b: "\<And>r s. shrinks (readBundle (Suc f) r s e) r"
    by (rule readBundle_shrinks) (rule l)
  have p: "\<And>r s. shrinks (readPacket (Suc f) r s e) r"
    by (rule readPacket_shrinks) (rule b)
  from l b p show ?case by blast
qed

lemma readPacket_suffix:
  assumes "readPacket f r s e = Some (res, r', s')"
  shows "suffix (remaining r') (remaining r)"
  using read_shrinks [of f e] assms by (metis shrinks_Some)

lemma readBundle_returns:
  assumes L: "\<And>r s tt el. length (remaining r) < N \<Longrightarrow> readBundleLoop f r s e tt el \<noteq> None"
    and len: "length (remaining r) < N"
  shows "readBundle f r s e \<noteq> None"
proof -
  obtain r1 b1 where p: "readPaddedString r = (r1, b1)"
    by (metis prod.exhaust)
  note s1 = readPaddedString_suffix [OF p]
  show ?thesis
  proof (cases r1)
    case (Inl err)
    with p show ?thesis by (simp add: readBundle.simps)
  next
    case (Inr tn)
    obtain tag n where tn: "tn = (tag, n)" by (cases tn) auto
    show ?thesis
    proof (cases "tag \<noteq> bundleTagString")
      case True
      with Inr tn p show ?thesis by (simp add: readBundle.simps)
    next
      case False
      obtain r2 b2 where q: "binaryRead 8 b1 = (r2, b2)"
        by (metis prod.exhaust)
      have "length (remaining b2) \<le> length (remaining r)"
        using suffix_order.trans [OF binaryRead_suffix [OF q] s1] by (rule suffix_length_le)
      with len have "length (remaining b2) < N" by simp
      from L [OF this] False Inr tn p q show ?thesis
        by (cases r2) (simp_all add: readBundle.simps)
    qed
  qed
qed

lemma readPacket_returns:
  assumes B: "\<And>r s. length (remaining r) < N \<Longrightarrow> readBundle f r s e \<noteq> None"
    and len: "length (remaining r) < N"
  shows "readPacket f r s e \<noteq> None"
proof -
  obtain buf err b1 where p: "Peek 1 r = ((buf, err), b1)"
    by (metis prod.exhaust)
  from Peek_remaining [OF p] len have "length (remaining b1) < N"
    by simp
  from B [OF this, of s] p show ?thesis
    by (cases err) (auto simp: readPacket.simps split: prod.splits sum.splits)
qed

lemma readBundleLoop_Suc_returns:
  assumes P: "\<And>r s. length (remaining r) < 4 * f \<Longrightarrow> readPacket f r s e \<noteq> None"
    and L: "\<And>r s tt el. length (remaining r) < 4 * f \<Longrightarrow> readBundleLoop f r s e tt el \<noteq> None"
    and len: "length (remaining r) < 4 * Suc f"
  shows "readBundleLoop (Suc f) r s e tt el \<noteq> None"
proof (cases "s < e")
  case False
  then show ?thesis by simp
next
  case True
  obtain r1 b1 where q: "binaryRead 4 r = (r1, b1)"
    by (metis prod.exhaust)
  show ?thesis
  proof (cases r1)
    case (Inl err)
    with True q show ?thesis by simp
  next
    case (Inr bs)
    with q binaryRead_ok [of 4 r bs b1] len have l1: "length (remaining b1) < 4 * f"
      by simp
    from P [OF l1, of "s + 4"] obtain res b2 s2
      where x: "readPacket f b1 (s + 4) e = Some (res, b2, s2)"
      by (metis not_Some_eq prod.exhaust)
    from readPacket_suffix [OF x] l1 have l2: "length (remaining b2) < 4 * f"
      using suffix_length_le by fastforce
    from L [OF l2] True q Inr x show ?thesis
      by (cases res) simp_all
  qed
qed

lemma read_returns:
  "(\<forall>r s tt el. length (remaining r) < 4 * f \<longrightarrow> readBundleLoop f r s e tt el \<noteq> None)
   \<and> (\<forall>r s. length (remaining r) < 4 * f \<longrightarrow> readBundle f r s e \<noteq> None)
   \<and> (\<forall>r s. length (remaining r) < 4 * f \<longrightarrow> readPacket f r s e \<noteq> None)"
proof (induction f)
  case 0
  show ?case by simp
next
  case (Suc f)
  have l: "\<And>r s tt el. length (remaining r) < 4 * Suc f \<Longrightarrow> readBundleLoop (Suc f) r s e tt el \<noteq> None"
    by (rule readBundleLoop_Suc_returns) (use Suc in blast)+
  have b: "\<And>r s. length (remaining r) < 4 * Suc f \<Longrightarrow> readBundle (Suc f) r s e \<noteq> None"
    by (rule readBundle_returns [where N = "4 * Suc f"]) (use l in blast)+
  have p: "\<And>r s. length (remaining r) < 4 * Suc f \<Longrightarrow> readPacket (Suc f) r s e \<noteq> None"
    by (rule readPacket_returns [where N = "4 * Suc f"]) (use b in blast)+
  from l b p show ?case by blast
qed

lemma readBundleLoop_length_unused:
  assumes "start < end" and "sameBeyond 4 reader other"
  shows "readBundleLoop fuel reader start end timeTag elems
       = readBundleLoop fuel other start end timeTag elems"
proof (cases fuel)
  case 0
  with assms(1) show ?thesis by simp
next
  case (Suc f)
  from binaryRead_same [OF assms(2), of 4] Suc assms(1) show ?thesis
    by auto
qed

lemma readBundleLoop_turn:
  assumes "start < end" and "4 \<le> length (remaining reader)"
  shows "\<exists>readerA. remaining readerA = drop 4 (remaining reader)
           \<and> readBundleLoop (Suc fuel) reader start end timeTag elems
             = (case readPacket fuel readerA (start + 4) end of
                  None \<Rightarrow> None
                | Some (Inl err, readerB, startB) \<Rightarrow> Some (Inl err, readerB, startB)
                | Some (Inr p, readerB, startB) \<Rightarrow>
                    readBundleLoop fuel readerB startB end timeTag (elems @ [p]))"
proof -
  from binaryRead_enough [OF assms(2)] obtain r1
    where "binaryRead 4 reader = (Inr (take 4 (remaining reader)), r1)"
      and "remaining r1 = drop 4 (remaining reader)"
    by blast
  with assms(1) show ?thesis
    by (intro exI [of _ r1]) simp
qed

lemma readBundleLoop_truncated:
  assumes "start < end" and "length (remaining reader) < 4"
  shows "\<exists>err readerA. readBundleLoop (Suc fuel) reader start end timeTag elems
           = Some (Inl err, readerA, start)"
proof -
  from binaryRead_short [OF assms(2)] obtain e r1 where "binaryRead 4 reader = (Inl e, r1)"
    by blast
  with assms(1) show ?thesis
    by simp
qed

lemma readPacket_nested:
  assumes "remaining reader = CHR ''#'' # rest"
  shows "\<exists>readerA. remaining readerA = remaining reader
           \<and> readPacket fuel reader start end = readBundle fuel readerA start end"
proof -
  from Peek_first [OF assms] obtain r1
    where "Peek 1 reader = (([CHR ''#''], None), r1)" and "remaining r1 = remaining reader"
    by blast
  then show ?thesis
    by (intro exI [of _ r1]) (simp add: readPacket.simps)
qed

lemma readPacket_bundle_end:
  assumes "readPacket fuel reader start end = Some (Inr (PacketBundle tt els), reader', start')"
  shows "end \<le> start'"
proof -
  obtain buf err b1 where p: "Peek 1 reader = ((buf, err), b1)"
    by (metis prod.exhaust)
  with assms have "readBundle fuel b1 start end = Some (Inr (PacketBundle tt els), reader', start')"
    by (auto simp: readPacket.simps split: option.splits if_splits prod.splits sum.splits)
  then show ?thesis
    by (rule readBundle_end)
qed

lemma readBundleLoop_result:
  assumes "readBundleLoop fuel reader start end timeTag elems = Some (Inr q, reader', start')"
  shows "\<exists>new. q = PacketBundle timeTag (elems @ new) \<and> (new = [] \<longleftrightarrow> \<not> start < end)
           \<and> list_all isMessage (butlast new)"
  using assms
proof (induction fuel arbitrary: reader start elems)
  case 0
  then show ?case by (auto split: if_splits)
next
  case (Suc fuel)
  show ?case
  proof (cases "start < end")
    case False
    with Suc.prems show ?thesis by simp
  next
    case True
    obtain r1 b1 where r: "binaryRead 4 reader = (r1, b1)"
      by (metis prod.exhaust)
    show ?thesis
    proof (cases r1)
      case (Inl e)
      with True r Suc.prems show ?thesis by simp
    next
      case (Inr bs)
      show ?thesis
      proof (cases "readPacket fuel b1 (start + 4) end")
        case None
        with True r Inr Suc.prems show ?thesis by simp
      next
        case (Some x)
        obtain res b2 s2 where x: "x = (res, b2, s2)"
          by (cases x) auto
        show ?thesis
        proof (cases res)
          case (Inl e)
          with True r Inr Some x Suc.prems show ?thesis by simp
        next
          case (Inr p)
          with True r \<open>r1 = Inr bs\<close> Some x Suc.prems
          have "readBundleLoop fuel b2 s2 end timeTag (elems @ [p]) = Some (Inr q, reader', start')"
            by simp
          from Suc.IH [OF this] obtain new
            where n: "q = PacketBundle timeTag ((elems @ [p]) @ new)"
              "new = [] \<longleftrightarrow> \<not> s2 < end" "list_all isMessage (butlast new)"
            by blast
          have "isMessage p" if "new \<noteq> []"
          proof (cases p)
            case (PacketMessage m)
            then show ?thesis by simp
          next
            case (PacketBundle t ps)
            with Some x Inr readPacket_bundle_end [of fuel b1 "start + 4" "end" t ps b2 s2]
            have "end \<le> s2" by simp
            with n(2) that show ?thesis by simp
          qed
          with n(3) have "list_all isMessage (butlast (p # new))"
            by simp
          with n(1) True show ?thesis
            by (intro exI [of _ "p # new"]) simp
        qed
      qed
    qed
  qed
qed

lemma readBundle_result:
  assumes "readBundle fuel reader start end = Some (Inr q, reader', start')"
  shows "\<exists>tt els. q = PacketBundle tt els \<and> list_all isMessage (butlast els)"
proof -
  from assms obtain readerA startA tt
    where "readBundleLoop fuel readerA startA end tt [] = Some (Inr q, reader', start')"
    by (auto simp: readBundle.simps split: prod.splits sum.splits if_splits)
  from readBundleLoop_result [OF this] show ?thesis
    by auto
qed

text \<open>
  C5, as amended. Decoding a bundle returns whenever the fuel exceeds a quarter of the
  bytes left. The loop ends, reading nothing more, as soon as the counter is not less
  than \<open>end\<close>. Otherwise a turn takes the next 4 bytes as the length and decodes one
  packet from the bytes after them with the counter advanced by 4, and goes on from
  the reader and the counter that the packet decoder left, with the packet appended;
  with fewer than 4 bytes left the turn fails with the counter unchanged. The value of
  the length is never used: readers that differ only in these 4 bytes give the same
  result. A packet that begins with \<open>#\<close> is decoded as a bundle with the same \<open>end\<close> as
  the enclosing one, so a nested bundle that is decoded leaves the counter at or
  beyond \<open>end\<close>, and in a decoded bundle every element but the last is a message. A
  bundle that is decoded has at least one element when the counter was below \<open>end\<close>,
  and leaves the counter at or beyond \<open>end\<close>: neither running past \<open>end\<close> nor a length
  that differs from the bytes the element takes is an error, as the bundle with one
  element of 12 bytes, the length 0 and \<open>end = 17\<close> shows.
\<close>

theorem readBundle_loop:
  "(length (remaining reader) < 4 * fuel \<longrightarrow>
      (\<exists>res. readBundle fuel reader start end = Some res))
   \<and> (\<not> start < end \<longrightarrow>
        readBundleLoop fuel reader start end timeTag elems
          = Some (Inr (PacketBundle timeTag elems), reader, start))
   \<and> (start < end \<and> 4 \<le> length (remaining reader) \<longrightarrow>
        (\<exists>readerA. remaining readerA = drop 4 (remaining reader)
           \<and> readBundleLoop (Suc fuel) reader start end timeTag elems
             = (case readPacket fuel readerA (start + 4) end of
                  None \<Rightarrow> None
                | Some (Inl err, readerB, startB) \<Rightarrow> Some (Inl err, readerB, startB)
                | Some (Inr p, readerB, startB) \<Rightarrow>
                    readBundleLoop fuel readerB startB end timeTag (elems @ [p]))))
   \<and> (start < end \<and> length (remaining reader) < 4 \<longrightarrow>
        (\<exists>err readerA. readBundleLoop (Suc fuel) reader start end timeTag elems
           = Some (Inl err, readerA, start)))
   \<and> (start < end \<and> sameBeyond 4 reader other \<longrightarrow>
        readBundleLoop fuel reader start end timeTag elems
          = readBundleLoop fuel other start end timeTag elems)
   \<and> (remaining reader = CHR ''#'' # rest \<longrightarrow>
        (\<exists>readerA. remaining readerA = remaining reader
           \<and> readPacket fuel reader start end = readBundle fuel readerA start end))
   \<and> (readPacket fuel reader start end = Some (Inr (PacketBundle tt els), reader', start') \<longrightarrow>
        end \<le> start')
   \<and> (readBundleLoop fuel reader start end timeTag elems = Some (Inr q, reader', start') \<longrightarrow>
        end \<le> start'
        \<and> (\<exists>new. q = PacketBundle timeTag (elems @ new) \<and> (new = [] \<longleftrightarrow> \<not> start < end)
             \<and> list_all isMessage (butlast new)))
   \<and> (readBundle fuel reader start end = Some (Inr q, reader', start') \<longrightarrow>
        end \<le> start'
        \<and> (\<exists>t ps. q = PacketBundle t ps \<and> list_all isMessage (butlast ps)))
   \<and> readPacket 9 (NewReader (''#bundle'' @ replicate 8 (CHR 0x00) @ [CHR 0x01]
        @ replicate 4 (CHR 0x00)
        @ ''/ping'' @ replicate 3 (CHR 0x00) @ '','' @ replicate 3 (CHR 0x00))) 0 17
      = Some (Inr (PacketBundle 1 [PacketMessage \<lparr>Address = ''/ping'', Arguments = []\<rparr>]),
             \<lparr>size = 4096, buffered = [], source = []\<rparr>, 32)"
proof (intro conjI impI)
  assume "length (remaining reader) < 4 * fuel"
  then have "readBundle fuel reader start end \<noteq> None"
    using read_returns [of fuel "end"] by blast
  then show "\<exists>res. readBundle fuel reader start end = Some res"
    by blast
next
  assume "\<not> start < end"
  then show "readBundleLoop fuel reader start end timeTag elems
      = Some (Inr (PacketBundle timeTag elems), reader, start)"
    by (rule readBundleLoop_exit)
next
  assume "start < end \<and> 4 \<le> length (remaining reader)"
  then show "\<exists>readerA. remaining readerA = drop 4 (remaining reader)
           \<and> readBundleLoop (Suc fuel) reader start end timeTag elems
             = (case readPacket fuel readerA (start + 4) end of
                  None \<Rightarrow> None
                | Some (Inl err, readerB, startB) \<Rightarrow> Some (Inl err, readerB, startB)
                | Some (Inr p, readerB, startB) \<Rightarrow>
                    readBundleLoop fuel readerB startB end timeTag (elems @ [p]))"
    using readBundleLoop_turn by blast
next
  assume "start < end \<and> length (remaining reader) < 4"
  then show "\<exists>err readerA. readBundleLoop (Suc fuel) reader start end timeTag elems
           = Some (Inl err, readerA, start)"
    using readBundleLoop_truncated by blast
next
  assume "start < end \<and> sameBeyond 4 reader other"
  then show "readBundleLoop fuel reader start end timeTag elems
          = readBundleLoop fuel other start end timeTag elems"
    using readBundleLoop_length_unused by blast
next
  assume "remaining reader = CHR ''#'' # rest"
  then show "\<exists>readerA. remaining readerA = remaining reader
           \<and> readPacket fuel reader start end = readBundle fuel readerA start end"
    by (rule readPacket_nested)
next
  assume "readPacket fuel reader start end = Some (Inr (PacketBundle tt els), reader', start')"
  then show "end \<le> start'"
    by (rule readPacket_bundle_end)
next
  assume a: "readBundleLoop fuel reader start end timeTag elems = Some (Inr q, reader', start')"
  then show "end \<le> start'"
    by (rule readBundleLoop_end)
  from a show "\<exists>new. q = PacketBundle timeTag (elems @ new) \<and> (new = [] \<longleftrightarrow> \<not> start < end)
             \<and> list_all isMessage (butlast new)"
    by (rule readBundleLoop_result)
next
  assume a: "readBundle fuel reader start end = Some (Inr q, reader', start')"
  then show "end \<le> start'"
    by (rule readBundle_end)
  from readBundle_result [OF a]
  show "\<exists>t ps. q = PacketBundle t ps \<and> list_all isMessage (butlast ps)"
    by blast
next
  show "readPacket 9 (NewReader (''#bundle'' @ replicate 8 (CHR 0x00) @ [CHR 0x01]
        @ replicate 4 (CHR 0x00)
        @ ''/ping'' @ replicate 3 (CHR 0x00) @ '','' @ replicate 3 (CHR 0x00))) 0 17
      = Some (Inr (PacketBundle 1 [PacketMessage \<lparr>Address = ''/ping'', Arguments = []\<rparr>]),
             \<lparr>size = 4096, buffered = [], source = []\<rparr>, 32)"
    by code_simp
qed

theorem readBundle_loop_witness:
  "length (remaining (NewReader (''#bundle'' @ replicate 8 (CHR 0x00) @ [CHR 0x01]
        @ replicate 4 (CHR 0x00)
        @ ''/ping'' @ replicate 3 (CHR 0x00) @ '','' @ replicate 3 (CHR 0x00)))) < 4 * 9
   \<and> (\<exists>res. readBundle 9 (NewReader (''#bundle'' @ replicate 8 (CHR 0x00) @ [CHR 0x01]
        @ replicate 4 (CHR 0x00)
        @ ''/ping'' @ replicate 3 (CHR 0x00) @ '','' @ replicate 3 (CHR 0x00))) 0 17 = Some res)
   \<and> readBundle 9 (NewReader (''#bundle'' @ replicate 8 (CHR 0x00) @ [CHR 0x01]
        @ replicate 4 (CHR 0x00)
        @ ''/ping'' @ replicate 3 (CHR 0x00) @ '','' @ replicate 3 (CHR 0x00))) 0 17
     = Some (Inr (PacketBundle 1 [PacketMessage \<lparr>Address = ''/ping'', Arguments = []\<rparr>]),
             \<lparr>size = 4096, buffered = [], source = []\<rparr>, 32)
   \<and> (16::int) < 17
   \<and> (17::int) \<le> 32
   \<and> \<not> (32::int) < 17
   \<and> 4 \<le> length (remaining \<lparr>size = 4096, buffered = replicate 4 (CHR 0x00)
          @ ''/ping'' @ replicate 3 (CHR 0x00) @ '','' @ replicate 3 (CHR 0x00), source = []\<rparr>)
   \<and> (\<exists>readerA. remaining readerA = drop 4 (remaining \<lparr>size = 4096, buffered = replicate 4 (CHR 0x00)
          @ ''/ping'' @ replicate 3 (CHR 0x00) @ '','' @ replicate 3 (CHR 0x00), source = []\<rparr>)
       \<and> readBundleLoop (Suc 8) \<lparr>size = 4096, buffered = replicate 4 (CHR 0x00)
          @ ''/ping'' @ replicate 3 (CHR 0x00) @ '','' @ replicate 3 (CHR 0x00), source = []\<rparr> 16 17 1 []
         = (case readPacket 8 readerA (16 + 4) 17 of
                  None \<Rightarrow> None
                | Some (Inl err, readerB, startB) \<Rightarrow> Some (Inl err, readerB, startB)
                | Some (Inr p, readerB, startB) \<Rightarrow>
                    readBundleLoop 8 readerB startB 17 1 ([] @ [p])))
   \<and> length (remaining \<lparr>size = 4096, buffered = replicate 3 (CHR 0x00), source = []\<rparr>) < 4
   \<and> (\<exists>err readerA. readBundleLoop (Suc 8) \<lparr>size = 4096, buffered = replicate 3 (CHR 0x00), source = []\<rparr> 16 17 1 []
       = Some (Inl err, readerA, 16))
   \<and> sameBeyond 4 \<lparr>size = 4096, buffered = replicate 4 (CHR 0x00)
          @ ''/ping'' @ replicate 3 (CHR 0x00) @ '','' @ replicate 3 (CHR 0x00), source = []\<rparr>
       \<lparr>size = 4096, buffered = replicate 3 (CHR 0x00) @ [CHR 0x0C]
          @ ''/ping'' @ replicate 3 (CHR 0x00) @ '','' @ replicate 3 (CHR 0x00), source = []\<rparr>
   \<and> readBundleLoop (Suc 8) \<lparr>size = 4096, buffered = replicate 4 (CHR 0x00)
          @ ''/ping'' @ replicate 3 (CHR 0x00) @ '','' @ replicate 3 (CHR 0x00), source = []\<rparr> 16 17 1 []
     = readBundleLoop (Suc 8) \<lparr>size = 4096, buffered = replicate 3 (CHR 0x00) @ [CHR 0x0C]
          @ ''/ping'' @ replicate 3 (CHR 0x00) @ '','' @ replicate 3 (CHR 0x00), source = []\<rparr> 16 17 1 []
   \<and> remaining (NewReader (''#bundle'' @ replicate 8 (CHR 0x00) @ [CHR 0x01]
        @ replicate 4 (CHR 0x00)
        @ ''/ping'' @ replicate 3 (CHR 0x00) @ '','' @ replicate 3 (CHR 0x00))) = CHR ''#'' # ''bundle'' @ replicate 8 (CHR 0x00) @ [CHR 0x01]
        @ replicate 4 (CHR 0x00)
        @ ''/ping'' @ replicate 3 (CHR 0x00) @ '','' @ replicate 3 (CHR 0x00)
   \<and> (\<exists>readerA. remaining readerA = remaining (NewReader (''#bundle'' @ replicate 8 (CHR 0x00) @ [CHR 0x01]
        @ replicate 4 (CHR 0x00)
        @ ''/ping'' @ replicate 3 (CHR 0x00) @ '','' @ replicate 3 (CHR 0x00)))
       \<and> readPacket 9 (NewReader (''#bundle'' @ replicate 8 (CHR 0x00) @ [CHR 0x01]
        @ replicate 4 (CHR 0x00)
        @ ''/ping'' @ replicate 3 (CHR 0x00) @ '','' @ replicate 3 (CHR 0x00))) 0 17 = readBundle 9 readerA 0 17)
   \<and> readPacket 9 (NewReader (''#bundle'' @ replicate 8 (CHR 0x00) @ [CHR 0x01]
        @ replicate 4 (CHR 0x00)
        @ ''/ping'' @ replicate 3 (CHR 0x00) @ '','' @ replicate 3 (CHR 0x00))) 0 17
     = Some (Inr (PacketBundle 1 [PacketMessage \<lparr>Address = ''/ping'', Arguments = []\<rparr>]),
             \<lparr>size = 4096, buffered = [], source = []\<rparr>, 32)
   \<and> readBundleLoop (Suc 8) \<lparr>size = 4096, buffered = replicate 4 (CHR 0x00)
          @ ''/ping'' @ replicate 3 (CHR 0x00) @ '','' @ replicate 3 (CHR 0x00), source = []\<rparr> 16 17 1 []
     = Some (Inr (PacketBundle 1 [PacketMessage \<lparr>Address = ''/ping'', Arguments = []\<rparr>]),
             \<lparr>size = 4096, buffered = [], source = []\<rparr>, 32)
   \<and> (\<exists>new. PacketBundle 1 [PacketMessage \<lparr>Address = ''/ping'', Arguments = []\<rparr>] = PacketBundle 1 ([] @ new)
       \<and> (new = [] \<longleftrightarrow> \<not> (16::int) < 17) \<and> list_all isMessage (butlast new))
   \<and> (\<exists>t ps. PacketBundle 1 [PacketMessage \<lparr>Address = ''/ping'', Arguments = []\<rparr>] = PacketBundle t ps
       \<and> list_all isMessage (butlast ps))
   \<and> readBundleLoop 8 \<lparr>size = 4096, buffered = [], source = []\<rparr> 32 17 1 [PacketMessage \<lparr>Address = ''/ping'', Arguments = []\<rparr>]
     = Some (Inr (PacketBundle 1 [PacketMessage \<lparr>Address = ''/ping'', Arguments = []\<rparr>]), \<lparr>size = 4096, buffered = [], source = []\<rparr>, 32)"
proof -
  have a: "length (remaining (NewReader (''#bundle'' @ replicate 8 (CHR 0x00) @ [CHR 0x01]
        @ replicate 4 (CHR 0x00)
        @ ''/ping'' @ replicate 3 (CHR 0x00) @ '','' @ replicate 3 (CHR 0x00)))) < 4 * 9"
    by code_simp
  have b: "readBundle 9 (NewReader (''#bundle'' @ replicate 8 (CHR 0x00) @ [CHR 0x01]
        @ replicate 4 (CHR 0x00)
        @ ''/ping'' @ replicate 3 (CHR 0x00) @ '','' @ replicate 3 (CHR 0x00))) 0 17
     = Some (Inr (PacketBundle 1 [PacketMessage \<lparr>Address = ''/ping'', Arguments = []\<rparr>]),
             \<lparr>size = 4096, buffered = [], source = []\<rparr>, 32)"
    by code_simp
  have l4: "4 \<le> length (remaining \<lparr>size = 4096, buffered = replicate 4 (CHR 0x00)
          @ ''/ping'' @ replicate 3 (CHR 0x00) @ '','' @ replicate 3 (CHR 0x00), source = []\<rparr>)"
    by code_simp
  have l3: "length (remaining \<lparr>size = 4096, buffered = replicate 3 (CHR 0x00), source = []\<rparr>) < 4"
    by code_simp
  have sb: "sameBeyond 4 \<lparr>size = 4096, buffered = replicate 4 (CHR 0x00)
          @ ''/ping'' @ replicate 3 (CHR 0x00) @ '','' @ replicate 3 (CHR 0x00), source = []\<rparr>
       \<lparr>size = 4096, buffered = replicate 3 (CHR 0x00) @ [CHR 0x0C]
          @ ''/ping'' @ replicate 3 (CHR 0x00) @ '','' @ replicate 3 (CHR 0x00), source = []\<rparr>"
    by code_simp
  have rem: "remaining (NewReader (''#bundle'' @ replicate 8 (CHR 0x00) @ [CHR 0x01]
        @ replicate 4 (CHR 0x00)
        @ ''/ping'' @ replicate 3 (CHR 0x00) @ '','' @ replicate 3 (CHR 0x00))) = CHR ''#'' # ''bundle'' @ replicate 8 (CHR 0x00) @ [CHR 0x01]
        @ replicate 4 (CHR 0x00)
        @ ''/ping'' @ replicate 3 (CHR 0x00) @ '','' @ replicate 3 (CHR 0x00)"
    by code_simp
  have pk: "readPacket 9 (NewReader (''#bundle'' @ replicate 8 (CHR 0x00) @ [CHR 0x01]
        @ replicate 4 (CHR 0x00)
        @ ''/ping'' @ replicate 3 (CHR 0x00) @ '','' @ replicate 3 (CHR 0x00))) 0 17
     = Some (Inr (PacketBundle 1 [PacketMessage \<lparr>Address = ''/ping'', Arguments = []\<rparr>]),
             \<lparr>size = 4096, buffered = [], source = []\<rparr>, 32)"
    by code_simp
  have lp: "readBundleLoop (Suc 8) \<lparr>size = 4096, buffered = replicate 4 (CHR 0x00)
          @ ''/ping'' @ replicate 3 (CHR 0x00) @ '','' @ replicate 3 (CHR 0x00), source = []\<rparr> 16 17 1 []
     = Some (Inr (PacketBundle 1 [PacketMessage \<lparr>Address = ''/ping'', Arguments = []\<rparr>]),
             \<lparr>size = 4096, buffered = [], source = []\<rparr>, 32)"
    by code_simp
  have f: "(16::int) < 17" "(17::int) \<le> 32" "\<not> (32::int) < 17"
    by simp_all
  note t1 = readBundle_loop [where fuel = 9
      and start = 0
      and ?end = 17
      and reader = "NewReader (''#bundle'' @ replicate 8 (CHR 0x00) @ [CHR 0x01]
        @ replicate 4 (CHR 0x00)
        @ ''/ping'' @ replicate 3 (CHR 0x00) @ '','' @ replicate 3 (CHR 0x00))"]
  note t2 = readBundle_loop [where fuel = 8
      and start = 16
      and ?end = 17
      and timeTag = 1
      and elems = "[]"
      and reader = "\<lparr>size = 4096, buffered = replicate 4 (CHR 0x00)
          @ ''/ping'' @ replicate 3 (CHR 0x00) @ '','' @ replicate 3 (CHR 0x00), source = []\<rparr>"
      and other = "\<lparr>size = 4096, buffered = replicate 3 (CHR 0x00) @ [CHR 0x0C]
          @ ''/ping'' @ replicate 3 (CHR 0x00) @ '','' @ replicate 3 (CHR 0x00), source = []\<rparr>"]
  note t3 = readBundle_loop [where fuel = 8
      and start = 16
      and ?end = 17
      and timeTag = 1
      and elems = "[]"
      and reader = "\<lparr>size = 4096, buffered = replicate 3 (CHR 0x00), source = []\<rparr>"]
  note t4 = readBundle_loop [where fuel = "Suc 8"
      and start = 16
      and ?end = 17
      and timeTag = 1
      and elems = "[]"
      and reader = "\<lparr>size = 4096, buffered = replicate 4 (CHR 0x00)
          @ ''/ping'' @ replicate 3 (CHR 0x00) @ '','' @ replicate 3 (CHR 0x00), source = []\<rparr>"
      and other = "\<lparr>size = 4096, buffered = replicate 3 (CHR 0x00) @ [CHR 0x0C]
          @ ''/ping'' @ replicate 3 (CHR 0x00) @ '','' @ replicate 3 (CHR 0x00), source = []\<rparr>"
      and q = "PacketBundle 1 [PacketMessage \<lparr>Address = ''/ping'', Arguments = []\<rparr>]"
      and reader' = "\<lparr>size = 4096, buffered = [], source = []\<rparr>"
      and start' = 32]
  note t5 = readBundle_loop [where fuel = 9
      and start = 0
      and ?end = 17
      and reader = "NewReader (''#bundle'' @ replicate 8 (CHR 0x00) @ [CHR 0x01]
        @ replicate 4 (CHR 0x00)
        @ ''/ping'' @ replicate 3 (CHR 0x00) @ '','' @ replicate 3 (CHR 0x00))"
      and rest = "''bundle'' @ replicate 8 (CHR 0x00) @ [CHR 0x01]
        @ replicate 4 (CHR 0x00)
        @ ''/ping'' @ replicate 3 (CHR 0x00) @ '','' @ replicate 3 (CHR 0x00)"
      and q = "PacketBundle 1 [PacketMessage \<lparr>Address = ''/ping'', Arguments = []\<rparr>]"
      and tt = 1
      and els = "[PacketMessage \<lparr>Address = ''/ping'', Arguments = []\<rparr>]"
      and reader' = "\<lparr>size = 4096, buffered = [], source = []\<rparr>"
      and start' = 32]
  note t6 = readBundle_loop [where fuel = 8
      and start = 32
      and ?end = 17
      and timeTag = 1
      and elems = "[PacketMessage \<lparr>Address = ''/ping'', Arguments = []\<rparr>]"
      and reader = "\<lparr>size = 4096, buffered = [], source = []\<rparr>"]
  have j: "(\<exists>res. readBundle 9 (NewReader (''#bundle'' @ replicate 8 (CHR 0x00) @ [CHR 0x01]
        @ replicate 4 (CHR 0x00)
        @ ''/ping'' @ replicate 3 (CHR 0x00) @ '','' @ replicate 3 (CHR 0x00))) 0 17 = Some res)"
    using t1 a by blast
  have turn: "(\<exists>readerA. remaining readerA = drop 4 (remaining \<lparr>size = 4096, buffered = replicate 4 (CHR 0x00)
          @ ''/ping'' @ replicate 3 (CHR 0x00) @ '','' @ replicate 3 (CHR 0x00), source = []\<rparr>)
       \<and> readBundleLoop (Suc 8) \<lparr>size = 4096, buffered = replicate 4 (CHR 0x00)
          @ ''/ping'' @ replicate 3 (CHR 0x00) @ '','' @ replicate 3 (CHR 0x00), source = []\<rparr> 16 17 1 []
         = (case readPacket 8 readerA (16 + 4) 17 of
                  None \<Rightarrow> None
                | Some (Inl err, readerB, startB) \<Rightarrow> Some (Inl err, readerB, startB)
                | Some (Inr p, readerB, startB) \<Rightarrow>
                    readBundleLoop 8 readerB startB 17 1 ([] @ [p])))"
    using t2 f l4 by blast
  have trunc: "(\<exists>err readerA. readBundleLoop (Suc 8) \<lparr>size = 4096, buffered = replicate 3 (CHR 0x00), source = []\<rparr> 16 17 1 []
       = Some (Inl err, readerA, 16))"
    using t3 f l3 by blast
  have same: "readBundleLoop (Suc 8) \<lparr>size = 4096, buffered = replicate 4 (CHR 0x00)
          @ ''/ping'' @ replicate 3 (CHR 0x00) @ '','' @ replicate 3 (CHR 0x00), source = []\<rparr> 16 17 1 []
     = readBundleLoop (Suc 8) \<lparr>size = 4096, buffered = replicate 3 (CHR 0x00) @ [CHR 0x0C]
          @ ''/ping'' @ replicate 3 (CHR 0x00) @ '','' @ replicate 3 (CHR 0x00), source = []\<rparr> 16 17 1 []"
    using t4 f sb by blast
  have nest: "(\<exists>readerA. remaining readerA = remaining (NewReader (''#bundle'' @ replicate 8 (CHR 0x00) @ [CHR 0x01]
        @ replicate 4 (CHR 0x00)
        @ ''/ping'' @ replicate 3 (CHR 0x00) @ '','' @ replicate 3 (CHR 0x00)))
       \<and> readPacket 9 (NewReader (''#bundle'' @ replicate 8 (CHR 0x00) @ [CHR 0x01]
        @ replicate 4 (CHR 0x00)
        @ ''/ping'' @ replicate 3 (CHR 0x00) @ '','' @ replicate 3 (CHR 0x00))) 0 17 = readBundle 9 readerA 0 17)"
    using t5 rem by blast
  have res: "(\<exists>new. PacketBundle 1 [PacketMessage \<lparr>Address = ''/ping'', Arguments = []\<rparr>] = PacketBundle 1 ([] @ new)
       \<and> (new = [] \<longleftrightarrow> \<not> (16::int) < 17) \<and> list_all isMessage (butlast new))"
    using t4 lp by blast
  have bres: "(\<exists>t ps. PacketBundle 1 [PacketMessage \<lparr>Address = ''/ping'', Arguments = []\<rparr>] = PacketBundle t ps
       \<and> list_all isMessage (butlast ps))"
    using t5 b by blast
  have ex: "readBundleLoop 8 \<lparr>size = 4096, buffered = [], source = []\<rparr> 32 17 1 [PacketMessage \<lparr>Address = ''/ping'', Arguments = []\<rparr>]
     = Some (Inr (PacketBundle 1 [PacketMessage \<lparr>Address = ''/ping'', Arguments = []\<rparr>]), \<lparr>size = 4096, buffered = [], source = []\<rparr>, 32)"
    using t6 f by blast
  show ?thesis
    by (intro conjI a j b f l4 turn l3 trunc sb same rem nest pk lp res bres ex)
qed

text \<open>
  C5 as stated fails. A bundle whose only element has the length prefix 0 while the
  element takes 12 bytes is decoded, the counter advancing by 4 + 12 and not by
  4 + 0; and with \<open>end = 17\<close>, which the element overruns, decoding succeeds with the
  counter at 32.
\<close>

theorem readBundle_loop_counterexample:
  "readPacket 9 (NewReader (''#bundle'' @ replicate 8 (CHR 0x00) @ [CHR 0x01]
        @ replicate 4 (CHR 0x00)
        @ ''/ping'' @ replicate 3 (CHR 0x00) @ '','' @ replicate 3 (CHR 0x00))) 0 32
     = Some (Inr (PacketBundle 1 [PacketMessage \<lparr>Address = ''/ping'', Arguments = []\<rparr>]),
             \<lparr>size = 4096, buffered = [], source = []\<rparr>, 32)
   \<and> readPacket 9 (NewReader (''#bundle'' @ replicate 8 (CHR 0x00) @ [CHR 0x01]
        @ replicate 3 (CHR 0x00) @ [CHR 0x0C]
        @ ''/ping'' @ replicate 3 (CHR 0x00) @ '','' @ replicate 3 (CHR 0x00))) 0 17
     = Some (Inr (PacketBundle 1 [PacketMessage \<lparr>Address = ''/ping'', Arguments = []\<rparr>]),
             \<lparr>size = 4096, buffered = [], source = []\<rparr>, 32)"
  by code_simp

section \<open>Round trip of messages\<close>

lemma length_PutUint [simp]: "length (PutUint k n) = k"
  by (induction k arbitrary: n) simp_all

lemma Uint_snoc: "Uint (bs @ [c]) = Uint bs * 256 + of_char c"
  by (simp add: Uint_def)

lemma Uint_PutUint: "Uint (PutUint k n) = n mod 256 ^ k"
proof (induction k arbitrary: n)
  case 0
  show ?case by (simp add: Uint_def)
next
  case (Suc k)
  have "Uint (PutUint (Suc k) n) = (n div 256 mod 256 ^ k) * 256 + n mod 256"
    by (simp add: Uint_snoc Suc)
  also have "\<dots> = n mod (256 * 256 ^ k)"
    by (simp add: mod_mult2_eq)
  finally show ?case by simp
qed

lemma get32_put32 [simp]: "get32 (put32 w) = w"
proof -
  have "unat w < 2 ^ 32"
    using unsigned_less [of w] by simp
  then have "unat w mod 256 ^ 4 = unat w"
    by simp
  then show ?thesis
    by (simp add: get32_def put32_def Uint_PutUint)
qed

lemma get64_put64 [simp]: "get64 (put64 w) = w"
proof -
  have "unat w < 2 ^ 64"
    using unsigned_less [of w] by simp
  then have "unat w mod 256 ^ 8 = unat w"
    by simp
  then show ?thesis
    by (simp add: get64_def put64_def Uint_PutUint)
qed

lemma length_put32 [simp]: "length (put32 w) = 4"
  by (simp add: put32_def)

lemma length_put64 [simp]: "length (put64 w) = 8"
  by (simp add: put64_def)

lemma writePaddedString_plain:
  assumes "CHR 0x00 \<notin> set s"
  shows "writePaddedString s buf
       = (int (length s) + 1 + padBytesNeeded (int (length s) + 1), buf @ padded s)"
  using assms by (simp add: writePaddedString_def IndexByte_def padded_def Let_def)

lemma padBytesNeeded_bounds:
  assumes "0 \<le> n"
  shows "0 \<le> padBytesNeeded n" and "padBytesNeeded n < 4"
  using padBytesNeeded_nonneg [OF assms] by simp_all

lemma length_padded:
  "int (length (padded s)) = int (length s) + 1 + padBytesNeeded (int (length s) + 1)"
  using padBytesNeeded_bounds(1) [of "int (length s) + 1"] by (simp add: padded_def)

lemma ReadString_buffered:
  assumes "buffered r = s @ CHR 0x00 # rest" and "CHR 0x00 \<notin> set s"
  shows "ReadString (CHR 0x00) r = ((s @ [CHR 0x00], None), r\<lparr>buffered := rest\<rparr>)"
proof -
  have tw: "takeWhile (\<lambda>x. x \<noteq> CHR 0x00) (s @ CHR 0x00 # rest) = s"
    using assms(2) by (induction s) auto
  have "CHR 0x00 \<in> set (buffered r)"
    using assms(1) by simp
  then show ?thesis
    using assms(1) tw
    by (simp add: ReadString_def ReadStringLoop.simps [of _ r] Let_def)
qed

lemma Read_buffered:
  assumes "buffered r \<noteq> []" and "0 < n"
  shows "Read n r = ((take n (buffered r), None), r\<lparr>buffered := drop n (buffered r)\<rparr>)"
  using assms by (simp add: Read_def)

lemma binaryRead_buffered:
  assumes "buffered r = bs @ rest" and "length bs = n" and "0 < n"
  shows "binaryRead n r = (Inr bs, r\<lparr>buffered := rest\<rparr>)"
proof -
  have ne: "buffered r \<noteq> []"
    using assms by auto
  have "Read n r = ((bs, None), r\<lparr>buffered := rest\<rparr>)"
    using assms by (simp add: Read_buffered [OF ne])
  then have "ReadAtLeast n r [] None = ReadAtLeast n (r\<lparr>buffered := rest\<rparr>) bs None"
    using assms(3) by (simp add: ReadAtLeast.simps [of n r])
  also have "\<dots> = ((bs, None), r\<lparr>buffered := rest\<rparr>)"
    using assms(2) by (simp add: ReadAtLeast.simps [of n "r\<lparr>buffered := rest\<rparr>"])
  finally show ?thesis
    by (simp add: binaryRead_def)
qed

lemma readPaddedString_buffered:
  assumes "buffered r = padded s @ rest" and "CHR 0x00 \<notin> set s"
  shows "readPaddedString r = (Inr (s, int (length (padded s))), r\<lparr>buffered := rest\<rparr>)"
proof -
  let ?pad = "padBytesNeeded (int (length s) + 1)"
  let ?r1 = "r\<lparr>buffered := replicate (nat ?pad) (CHR 0x00) @ rest\<rparr>"
  have b: "buffered r = s @ CHR 0x00 # (replicate (nat ?pad) (CHR 0x00) @ rest)"
    using assms(1) by (simp add: padded_def)
  have rs: "ReadString (CHR 0x00) r = ((s @ [CHR 0x00], None), ?r1)"
    by (rule ReadString_buffered [OF b assms(2)])
  have p0: "0 \<le> ?pad"
    by (rule padBytesNeeded_bounds) simp
  show ?thesis
  proof (cases "?pad > 0")
    case True
    then have ne: "buffered ?r1 \<noteq> []" and n0: "0 < nat ?pad"
      by simp_all
    have "Read (nat ?pad) ?r1 = ((replicate (nat ?pad) (CHR 0x00), None), r\<lparr>buffered := rest\<rparr>)"
      by (simp add: Read_buffered [OF ne n0])
    with True rs show ?thesis
      by (simp add: readPaddedString_def Let_def length_padded add.commute)
  next
    case False
    with p0 have z: "?pad = 0" by simp
    with rs show ?thesis
      by (simp add: readPaddedString_def Let_def length_padded add.commute)
  qed
qed

lemma sint_small_int:
  assumes "0 \<le> k" and "k < 2 ^ 31"
  shows "sint (word_of_int k :: 32 word) = k"
proof -
  have "- (2 ^ 31) \<le> k"
    using assms(1) by simp
  then have "signed_take_bit 31 k = k"
    using assms(2) by (intro signed_take_bit_int_eq_self) simp_all
  then show ?thesis
    by (simp add: sint_sbintrunc')
qed

lemma sint_small_nat:
  assumes "n < 2 ^ 31"
  shows "sint (word_of_nat n :: 32 word) = int n"
proof -
  have "sint (word_of_int (int n) :: 32 word) = int n"
    using assms by (intro sint_small_int) simp_all
  then show ?thesis by simp
qed

lemma writeBlob_blob:
  "writeBlob data buf
     = (4 + int (length data) + padBytesNeeded (int (length data)), buf @ blob data)"
  by (simp add: writeBlob_def blob_def Let_def)

lemma readBlob_buffered:
  assumes b: "buffered r = blob data @ rest" and ne: "data \<noteq> []"
    and small: "length (buffered r) < 2 ^ 31"
  shows "readBlob r = (Inr (data, 4 + int (length data) + padBytesNeeded (int (length data))),
                       r\<lparr>buffered := rest\<rparr>)"
proof -
  let ?L = "int (length data)"
  let ?pad = "padBytesNeeded ?L"
  let ?r1 = "r\<lparr>buffered := data @ replicate (nat ?pad) (CHR 0x00) @ rest\<rparr>"
  let ?r2 = "r\<lparr>buffered := replicate (nat ?pad) (CHR 0x00) @ rest\<rparr>"
  have b1: "buffered r = put32 (word_of_int ?L) @ (data @ replicate (nat ?pad) (CHR 0x00) @ rest)"
    using b by (simp add: blob_def)
  have r1: "binaryRead 4 r = (Inr (put32 (word_of_int ?L)), ?r1)"
    by (rule binaryRead_buffered [OF b1]) simp_all
  have p0: "0 \<le> ?pad"
    by (rule padBytesNeeded_bounds) simp
  have len: "length (buffered r) = 4 + length data + nat ?pad + length rest"
    using b1 by simp
  with small have dl: "?L < 2 ^ 31"
    by simp
  have sL: "sint (word_of_int ?L :: 32 word) = ?L"
    using dl by (intro sint_small_int) simp_all
  have "length (buffered ?r1) < 2 ^ 31"
    using small len by simp
  then have sB: "sint (word_of_nat (Buffered ?r1) :: 32 word) = int (Buffered ?r1)"
    unfolding Buffered_def by (rule sint_small_nat)
  have chk: "\<not> (?L < 1 \<or> ?L > int (Buffered ?r1))"
    using ne by (cases data) (simp_all add: Buffered_def)
  have ne1: "buffered ?r1 \<noteq> []"
    using ne by simp
  have n1: "0 < length data"
    using ne by simp
  have r2: "Read (nat ?L) ?r1 = ((data, None), ?r2)"
    by (simp add: Read_buffered [OF ne1 n1])
  show ?thesis
  proof (cases "?pad > 0")
    case True
    then have ne2: "buffered ?r2 \<noteq> []" and n2: "0 < nat ?pad"
      by simp_all
    have "Read (nat ?pad) ?r2 = ((replicate (nat ?pad) (CHR 0x00), None), r\<lparr>buffered := rest\<rparr>)"
      by (simp add: Read_buffered [OF ne2 n2])
    with True r1 r2 chk sL sB show ?thesis
      by (simp add: readBlob_def Let_def)
  next
    case False
    with p0 have z: "?pad = 0" by simp
    with r1 r2 chk sL sB show ?thesis
      by (simp add: readBlob_def Let_def)
  qed
qed

lemma readArgument_payload:
  assumes "transportable a" and "buffered r = payload a @ rest"
    and "length (buffered r) < 2 ^ 31"
  shows "\<exists>start'. readArgument (getTypeTag a) (msg, r, start)
           = Continue (Append msg [a], r\<lparr>buffered := rest\<rparr>, start')"
proof (cases a)
  case (GoBool t)
  with assms show ?thesis by (cases r) simp
next
  case GoNil
  with assms show ?thesis by (cases r) simp
next
  case (GoInt32 t)
  with assms have "binaryRead 4 r = (Inr (put32 t), r\<lparr>buffered := rest\<rparr>)"
    by (intro binaryRead_buffered) simp_all
  with GoInt32 show ?thesis by simp
next
  case (GoInt64 t)
  with assms have "binaryRead 8 r = (Inr (put64 t), r\<lparr>buffered := rest\<rparr>)"
    by (intro binaryRead_buffered) simp_all
  with GoInt64 show ?thesis by simp
next
  case (GoFloat32 t)
  with assms have "binaryRead 4 r = (Inr (put32 t), r\<lparr>buffered := rest\<rparr>)"
    by (intro binaryRead_buffered) simp_all
  with GoFloat32 show ?thesis by simp
next
  case (GoFloat64 t)
  with assms have "binaryRead 8 r = (Inr (put64 t), r\<lparr>buffered := rest\<rparr>)"
    by (intro binaryRead_buffered) simp_all
  with GoFloat64 show ?thesis by simp
next
  case (GoString t)
  with assms have "readPaddedString r = (Inr (t, int (length (padded t))), r\<lparr>buffered := rest\<rparr>)"
    by (intro readPaddedString_buffered) simp_all
  with GoString show ?thesis by (simp add: Let_def)
next
  case (GoBytes t)
  with assms have "readBlob r = (Inr (t, 4 + int (length t) + padBytesNeeded (int (length t))),
      r\<lparr>buffered := rest\<rparr>)"
    by (intro readBlob_buffered) simp_all
  with GoBytes show ?thesis by simp
next
  case (GoTimetag t)
  with assms have "binaryRead 8 r = (Inr (put64 t), r\<lparr>buffered := rest\<rparr>)"
    by (intro binaryRead_buffered) simp_all
  with GoTimetag show ?thesis by simp
next
  case GoOther
  with assms show ?thesis by simp
qed

lemma readArgumentsLoop_payload:
  assumes "\<forall>a\<in>set args. transportable a"
    and "buffered r = concat (map payload args) @ rest"
    and "length (buffered r) < 2 ^ 31"
  shows "\<exists>start'. readArgumentsLoop (map getTypeTag args) (msg, r, start)
           = Continue (Append msg args, r\<lparr>buffered := rest\<rparr>, start')"
  using assms
proof (induction args arbitrary: msg r start)
  case Nil
  then show ?case by (cases r) (simp add: Append_def)
next
  case (Cons a args)
  let ?r1 = "r\<lparr>buffered := concat (map payload args) @ rest\<rparr>"
  from Cons.prems have "transportable a"
    and b: "buffered r = payload a @ (concat (map payload args) @ rest)"
    by simp_all
  from readArgument_payload [OF this Cons.prems(3)] obtain s1
    where step: "readArgument (getTypeTag a) (msg, r, start) = Continue (Append msg [a], ?r1, s1)"
    by blast
  have "length (buffered ?r1) < 2 ^ 31"
    using Cons.prems(3) b by simp
  with Cons.IH [of ?r1 "Append msg [a]" s1] Cons.prems(1) obtain s2
    where "readArgumentsLoop (map getTypeTag args) (Append msg [a], ?r1, s1)
         = Continue (Append (Append msg [a]) args, ?r1\<lparr>buffered := rest\<rparr>, s2)"
    by auto
  with step show ?case
    by (simp add: Append_def)
qed

lemma marshalArguments_step:
  assumes "transportable a"
  shows "marshalArguments (a # args) i tt pl
       = marshalArguments args (Suc i) (tt[Suc i := getTypeTag a]) (pl @ payload a)"
  using assms
  by (cases a) (simp_all add: writePaddedString_plain writeBlob_blob)

lemma marshalArguments_ok:
  assumes "\<forall>a\<in>set args. transportable a" and "i + length args < length tt"
  shows "marshalArguments args i tt pl
       = Inr (take (Suc i) tt @ map getTypeTag args @ drop (Suc i + length args) tt,
              pl @ concat (map payload args))"
  using assms
proof (induction args arbitrary: i tt pl)
  case Nil
  then show ?case by simp
next
  case (Cons a args)
  let ?tt = "tt[Suc i := getTypeTag a]"
  from Cons.prems have t: "transportable a" and ts: "\<forall>a\<in>set args. transportable a"
    and len: "Suc i + length args < length ?tt" and i: "Suc i < length tt"
    by simp_all
  have tk: "take (Suc (Suc i)) ?tt = take (Suc i) tt @ [getTypeTag a]"
    using i by (simp add: take_Suc_conv_app_nth)
  have dr: "drop (Suc (Suc i) + length args) ?tt = drop (Suc (Suc i) + length args) tt"
    by simp
  show ?case
    by (simp only: marshalArguments_step [OF t] Cons.IH [OF ts len] tk dr) simp
qed

lemma getTypeTag_not_null: "getTypeTag a \<noteq> CHR 0x00" "CHR 0x00 \<noteq> getTypeTag a"
  by (cases a; simp)+

lemma MarshalBinary_bytes:
  assumes "CHR 0x00 \<notin> set (Address m)" and "\<forall>a\<in>set (Arguments m). transportable a"
  shows "MarshalBinary m
       = Inr (padded (Address m) @ padded (CHR '','' # map getTypeTag (Arguments m))
              @ concat (map payload (Arguments m)))"
proof -
  let ?args = "Arguments m"
  let ?tt = "(replicate (length ?args + 1) (CHR 0x00))[0 := CHR '','']"
  have "marshalArguments ?args 0 ?tt []
      = Inr (take (Suc 0) ?tt @ map getTypeTag ?args @ drop (Suc 0 + length ?args) ?tt,
             [] @ concat (map payload ?args))"
    by (rule marshalArguments_ok [OF assms(2)]) simp
  then have ma: "marshalArguments ?args 0 ?tt []
      = Inr (CHR '','' # map getTypeTag ?args, concat (map payload ?args))"
    by simp
  have "CHR 0x00 \<notin> set (CHR '','' # map getTypeTag ?args)"
    by (auto simp: getTypeTag_not_null)
  then show ?thesis
    using assms(1) ma
    by (simp add: MarshalBinary_def Let_def writePaddedString_plain del: set_simps)
qed

lemma ReadString_unbuffered:
  assumes "buffered r = []" and "source r \<noteq> []" and "length (source r) \<le> bufLen r"
  shows "ReadString d r = ReadString d (r\<lparr>buffered := source r, source := []\<rparr>)"
proof -
  have "fill r = (r\<lparr>buffered := source r, source := []\<rparr>, None)"
    using assms by (simp add: fill_def Let_def min_def)
  moreover have "0 < bufLen r"
    by (simp add: bufLen_def)
  ultimately show ?thesis
    using assms(1) by (simp add: ReadString_def ReadStringLoop.simps [of d r])
qed

lemma readMessage_unbuffered:
  assumes "buffered r = []" and "source r \<noteq> []" and "length (source r) \<le> bufLen r"
  shows "readMessage r start = readMessage (r\<lparr>buffered := source r, source := []\<rparr>) start"
  by (simp add: readMessage_def readPaddedString_def ReadString_unbuffered [OF assms])

lemma readMessage_buffered:
  assumes a: "CHR 0x00 \<notin> set addr" and ts: "\<forall>a\<in>set args. transportable a"
    and b: "buffered r = padded addr @ padded (CHR '','' # map getTypeTag args)
              @ concat (map payload args)"
    and small: "length (buffered r) < 2 ^ 31"
  shows "fst (readMessage r start) = Inr \<lparr>Address = addr, Arguments = args\<rparr>"
proof -
  let ?tags = "CHR '','' # map getTypeTag args"
  let ?r1 = "r\<lparr>buffered := padded ?tags @ concat (map payload args)\<rparr>"
  let ?r2 = "r\<lparr>buffered := concat (map payload args) @ []\<rparr>"
  have p1: "readPaddedString r = (Inr (addr, int (length (padded addr))), ?r1)"
    by (rule readPaddedString_buffered [OF b a])
  have nt: "CHR 0x00 \<notin> set ?tags"
    by (auto simp: getTypeTag_not_null)
  have "readPaddedString ?r1 = (Inr (?tags, int (length (padded ?tags))), ?r1\<lparr>buffered := concat (map payload args) @ []\<rparr>)"
    by (rule readPaddedString_buffered [OF _ nt]) simp
  then have p2: "readPaddedString ?r1 = (Inr (?tags, int (length (padded ?tags))), ?r2)"
    by simp
  have "length (buffered ?r2) < 2 ^ 31"
    using small b by simp
  from readArgumentsLoop_payload [OF ts _ this, of "[]" "NewMessage addr []"
      "start + int (length (padded addr)) + int (length (padded ?tags))"]
  obtain s' where "readArgumentsLoop (map getTypeTag args)
        (NewMessage addr [], ?r2, start + int (length (padded addr)) + int (length (padded ?tags)))
      = Continue (Append (NewMessage addr []) args, ?r2\<lparr>buffered := []\<rparr>, s')"
    by auto
  with p2 have "readArguments (NewMessage addr []) ?r1 (start + int (length (padded addr)))
      = (None, (Append (NewMessage addr []) args, ?r2\<lparr>buffered := []\<rparr>, s'))"
    by (simp add: readArguments_def)
  with p1 show ?thesis
    by (simp add: readMessage_def NewMessage_def Append_def)
qed

text \<open>
  C1, as amended. Let the address and the string arguments of a message hold no null
  byte, let every blob argument hold at least one byte, and let every argument be of a
  supported type. Then encoding succeeds, and decoding the bytes with a reader whose
  buffer is at least as long as they are (and fewer than \<open>2^31\<close> bytes) gives back a
  message equal to the first, address and arguments, nil and the booleans from their
  tags alone.
\<close>

theorem message_roundtrip:
  assumes "CHR 0x00 \<notin> set (Address m)" and "\<forall>a\<in>set (Arguments m). transportable a"
  shows "\<exists>bytes. MarshalBinary m = Inr bytes
           \<and> (length bytes \<le> bufLen (NewReaderSize bytes sz) \<and> length bytes < 2 ^ 31
                \<longrightarrow> fst (readMessage (NewReaderSize bytes sz) start) = Inr m)"
proof -
  let ?bytes = "padded (Address m) @ padded (CHR '','' # map getTypeTag (Arguments m))
      @ concat (map payload (Arguments m))"
  let ?r = "NewReaderSize ?bytes sz"
  have mb: "MarshalBinary m = Inr ?bytes"
    by (rule MarshalBinary_bytes [OF assms])
  have ne: "?bytes \<noteq> []"
    by (simp add: padded_def)
  have "fst (readMessage ?r start) = Inr m"
    if fit: "length ?bytes \<le> bufLen ?r" and small: "length ?bytes < 2 ^ 31"
  proof -
    have "readMessage ?r start = readMessage (?r\<lparr>buffered := source ?r, source := []\<rparr>) start"
      using ne fit by (intro readMessage_unbuffered) (simp_all add: NewReaderSize_def)
    moreover have "fst (readMessage (?r\<lparr>buffered := source ?r, source := []\<rparr>) start)
        = Inr \<lparr>Address = Address m, Arguments = Arguments m\<rparr>"
      using small by (intro readMessage_buffered [OF assms]) (simp_all add: NewReaderSize_def)
    ultimately show ?thesis by simp
  qed
  with mb show ?thesis by blast
qed

theorem message_roundtrip_witness:
  "MarshalBinary \<lparr>Address = ''/a'', Arguments = [GoInt32 5, GoString ''abcd'', GoBytes ''xy'',
        GoBool True, GoBool False, GoNil, GoTimetag 1, GoInt64 2, GoFloat32 7, GoFloat64 9]\<rparr>
     = Inr (''/a'' @ replicate 2 (CHR 0x00) @ '',isbTFNthfd'' @ CHR 0x00
        # replicate 3 (CHR 0x00) @ [CHR 0x05]
        @ ''abcd'' @ replicate 4 (CHR 0x00)
        @ replicate 3 (CHR 0x00) @ [CHR 0x02] @ ''xy'' @ replicate 2 (CHR 0x00)
        @ replicate 7 (CHR 0x00) @ [CHR 0x01]
        @ replicate 7 (CHR 0x00) @ [CHR 0x02]
        @ replicate 3 (CHR 0x00) @ [CHR 0x07]
        @ replicate 7 (CHR 0x00) @ [CHR 0x09])
   \<and> fst (readMessage (NewReader (''/a'' @ replicate 2 (CHR 0x00) @ '',isbTFNthfd'' @ CHR 0x00
        # replicate 3 (CHR 0x00) @ [CHR 0x05]
        @ ''abcd'' @ replicate 4 (CHR 0x00)
        @ replicate 3 (CHR 0x00) @ [CHR 0x02] @ ''xy'' @ replicate 2 (CHR 0x00)
        @ replicate 7 (CHR 0x00) @ [CHR 0x01]
        @ replicate 7 (CHR 0x00) @ [CHR 0x02]
        @ replicate 3 (CHR 0x00) @ [CHR 0x07]
        @ replicate 7 (CHR 0x00) @ [CHR 0x09])) 0)
     = Inr \<lparr>Address = ''/a'', Arguments = [GoInt32 5, GoString ''abcd'', GoBytes ''xy'',
        GoBool True, GoBool False, GoNil, GoTimetag 1, GoInt64 2, GoFloat32 7, GoFloat64 9]\<rparr>"
proof -
  have mb: "MarshalBinary \<lparr>Address = ''/a'', Arguments = [GoInt32 5, GoString ''abcd'', GoBytes ''xy'',
        GoBool True, GoBool False, GoNil, GoTimetag 1, GoInt64 2, GoFloat32 7, GoFloat64 9]\<rparr>
     = Inr (''/a'' @ replicate 2 (CHR 0x00) @ '',isbTFNthfd'' @ CHR 0x00
        # replicate 3 (CHR 0x00) @ [CHR 0x05]
        @ ''abcd'' @ replicate 4 (CHR 0x00)
        @ replicate 3 (CHR 0x00) @ [CHR 0x02] @ ''xy'' @ replicate 2 (CHR 0x00)
        @ replicate 7 (CHR 0x00) @ [CHR 0x01]
        @ replicate 7 (CHR 0x00) @ [CHR 0x02]
        @ replicate 3 (CHR 0x00) @ [CHR 0x07]
        @ replicate 7 (CHR 0x00) @ [CHR 0x09])"
    by code_simp
  have a: "CHR 0x00 \<notin> set (Address \<lparr>Address = ''/a'', Arguments = [GoInt32 5, GoString ''abcd'',
        GoBytes ''xy'', GoBool True, GoBool False, GoNil, GoTimetag 1, GoInt64 2, GoFloat32 7,
        GoFloat64 9]\<rparr>)"
    by simp
  have t: "\<forall>a\<in>set (Arguments \<lparr>Address = ''/a'', Arguments = [GoInt32 5, GoString ''abcd'',
        GoBytes ''xy'', GoBool True, GoBool False, GoNil, GoTimetag 1, GoInt64 2, GoFloat32 7,
        GoFloat64 9]\<rparr>). transportable a"
    by simp
  from message_roundtrip [OF a t, of 4096 0] mb show ?thesis
    by (simp add: NewReader_def NewReaderSize_def bufLen_def)
qed

text \<open>
  C1 as stated fails. A string argument with a null byte inside comes back cut at
  that byte, and a message with an empty blob is encoded but not decoded: the length 0
  is refused.
\<close>

theorem message_roundtrip_counterexample:
  "MarshalBinary \<lparr>Address = ''/a'', Arguments = [GoString (''a'' @ CHR 0x00 # ''b'')]\<rparr>
     = Inr (''/a'' @ replicate 2 (CHR 0x00) @ '',s'' @ replicate 2 (CHR 0x00)
            @ ''a'' @ replicate 3 (CHR 0x00))
   \<and> fst (readMessage (NewReader (''/a'' @ replicate 2 (CHR 0x00) @ '',s'' @ replicate 2 (CHR 0x00)
            @ ''a'' @ replicate 3 (CHR 0x00))) 0)
     = Inr \<lparr>Address = ''/a'', Arguments = [GoString ''a'']\<rparr>
   \<and> MarshalBinary \<lparr>Address = ''/a'', Arguments = [GoBytes []]\<rparr>
     = Inr (''/a'' @ replicate 2 (CHR 0x00) @ '',b'' @ replicate 2 (CHR 0x00)
            @ replicate 4 (CHR 0x00))
   \<and> fst (readMessage (NewReader (''/a'' @ replicate 2 (CHR 0x00) @ '',b'' @ replicate 2 (CHR 0x00)
            @ replicate 4 (CHR 0x00))) 0)
     = Inl (ErrInvalidBlobLength 0)"
  by code_simp



section \<open>The checks that hold\<close>

text \<open>
  What \<^verbatim>\<open>readBlob\<close> does check: a length below 1, or above the bytes that remain, is
  always refused with the error for an invalid length.
\<close>

lemma sint_word_of_nat_le: "sint (word_of_nat n :: 32 word) \<le> int n"
proof (cases "n < 2 ^ 31")
  case True
  then show ?thesis by (simp add: sint_small_nat)
next
  case False
  have "sint (word_of_nat n :: 32 word) < 2 ^ 31"
    using sint_lt [of "word_of_nat n :: 32 word"] by simp
  moreover from False have "(2::int) ^ 31 \<le> int n"
    by (simp add: of_nat_le_iff [of "2 ^ 31" n, simplified] not_less)
  ultimately show ?thesis by linarith
qed

lemma readBlob_invalid_length:
  assumes "binaryRead 4 reader = (Inr bs, reader1)"
    and "sint (get32 bs) < 1 \<or> sint (get32 bs) > int (length (remaining reader1))"
  shows "readBlob reader = (Inl (ErrInvalidBlobLength (sint (get32 bs))), reader1)"
proof -
  have "int (Buffered reader1) \<le> int (length (remaining reader1))"
    by (simp add: Buffered_def remaining_def)
  with sint_word_of_nat_le [of "Buffered reader1"] assms(2)
  have "sint (get32 bs) < 1 \<or> sint (get32 bs) > sint (word_of_nat (Buffered reader1) :: 32 word)"
    by linarith
  with assms(1) show ?thesis
    by (simp add: readBlob_def Let_def)
qed

text \<open>
  What \<^verbatim>\<open>writePaddedString\<close> does for a string that does not start with a null byte:
  the string up to its first null byte, one terminator and the padding, a multiple of
  4 bytes and at least 4, and the count it returns is the number of bytes written.
\<close>

lemma length_padded_mod4: "length (padded s) mod 4 = 0" and length_padded_ge4: "4 \<le> length (padded s)"
proof -
  let ?n = "int (length s) + 1"
  have p: "padBytesNeeded ?n = (4 - ?n mod 4) mod 4"
    by (rule padBytesNeeded_nonneg) simp
  have l: "int (length (padded s)) = ?n + padBytesNeeded ?n"
    by (simp add: length_padded)
  have "(?n + (4 - ?n mod 4) mod 4) mod 4 = 0"
    by presburger
  with p l have "int (length (padded s)) mod 4 = 0"
    by simp
  then show "length (padded s) mod 4 = 0"
    by presburger
  have "1 \<le> length (padded s)"
    by (simp add: padded_def)
  with \<open>length (padded s) mod 4 = 0\<close> show "4 \<le> length (padded s)"
    by presburger
qed

lemma writePaddedString_truncates:
  assumes "s = [] \<or> hd s \<noteq> CHR 0x00"
  shows "writePaddedString s buf
       = (int (length (padded (takeWhile (\<lambda>c. c \<noteq> CHR 0x00) s))),
          buf @ padded (takeWhile (\<lambda>c. c \<noteq> CHR 0x00) s))"
proof (cases "CHR 0x00 \<in> set s")
  case False
  then have tw: "takeWhile (\<lambda>c. c \<noteq> CHR 0x00) s = s"
    by (auto simp: takeWhile_eq_all_conv)
  show ?thesis
    unfolding tw using False by (simp add: writePaddedString_plain length_padded)
next
  case True
  let ?t = "takeWhile (\<lambda>c. c \<noteq> CHR 0x00) s"
  from True assms have "?t \<noteq> []"
    by (cases s) auto
  then have pos: "IndexByte s (CHR 0x00) > 0"
    using True by (simp add: IndexByte_def)
  have tk: "take (nat (IndexByte s (CHR 0x00))) s = ?t"
    using True by (simp add: IndexByte_def takeWhile_eq_take [symmetric])
  have "writePaddedString s buf
      = (int (length ?t) + 1 + padBytesNeeded (int (length ?t) + 1), buf @ padded ?t)"
    unfolding writePaddedString_def Let_def padded_def
    by (simp only: pos if_True tk) simp
  then show ?thesis
    by (simp only: length_padded)
qed

section \<open>Matching of address patterns\<close>














lemma isalnum_punct [simp]:
  "isASCII (CHR ''.'')" "\<not> isalnum (CHR ''.'')"
  "isASCII (CHR ''('')" "\<not> isalnum (CHR ''('')"
  "isASCII (CHR '')'')" "\<not> isalnum (CHR '')'')"
  by (simp_all add: isASCII_def isalnum_def)






end
